theory Spec2Isabelle
  imports Complex_Main "HOL-Library.Word"
begin

unbundle bit_operations_syntax

section \<open>Machine types\<close>

type_synonym u8 = "8 word"
type_synonym u16 = "16 word"
type_synonym u32 = "32 word"

section \<open>Single precision\<close>

text \<open>
  A C \<open>float\<close> is either not-a-number or a finite value, held as the real number it
  stands for.
\<close>

datatype cfloat = NaN | Fin real

text \<open>
  Every operation on \<open>float\<close>s gives the exact result rounded to single precision (IEEE
  754 binary32, round to nearest, ties to even): 24 significant bits, so a value \<open>a\<close> with
  \<open>2^e \<le> a < 2^(e+1)\<close> lies on a grid of spacing \<open>2^(e-23)\<close>; the exponent is not less than
  \<open>-126\<close> (below, the spacing stays \<open>2^-149\<close>). \<open>doublings\<close> and \<open>halvings\<close> find the
  exponent of a value below 1 and of a value from 1 on. A result of magnitude \<open>2^128\<close> or
  more, an infinity in C, is kept as it is: the code only compares such a value with a
  bound, or converts it to an integer, which C leaves undefined.
\<close>

fun doublings :: "nat \<Rightarrow> real \<Rightarrow> nat" where
  "doublings 0 a = 0"
| "doublings (Suc n) a = (if 1 \<le> a then 0 else Suc (doublings n (2 * a)))"

fun halvings :: "nat \<Rightarrow> real \<Rightarrow> nat" where
  "halvings 0 a = 0"
| "halvings (Suc n) a = (if a < 2 then 0 else Suc (halvings n (a / 2)))"

definition ulp :: "real \<Rightarrow> real" where
  "ulp x =
    (let a = \<bar>x\<bar>
     in if a < 1 then 1 / 2 ^ (doublings 126 a + 23) else 2 ^ halvings 127 a / 2 ^ 23)"

definition round_even :: "real \<Rightarrow> int" where
  "round_even y =
    (let f = \<lfloor>y\<rfloor>; d = y - of_int f
     in if d < 1 / 2 then f else if d > 1 / 2 then f + 1
        else if even f then f else f + 1)"

definition f32 :: "real \<Rightarrow> real" where
  "f32 x =
    (if x = 0 then 0 else if \<bar>x\<bar> \<ge> 2 ^ 128 then x
     else of_int (round_even (x / ulp x)) * ulp x)"

text \<open>The operators \<open>+\<close>, \<open>*\<close> and \<open>/\<close> on two \<open>float\<close>s.\<close>

definition f32_add :: "real \<Rightarrow> real \<Rightarrow> real" where
  "f32_add x y = f32 (x + y)"

definition f32_mul :: "real \<Rightarrow> real \<Rightarrow> real" where
  "f32_mul x y = f32 (x * y)"

definition f32_div :: "real \<Rightarrow> real \<Rightarrow> real" where
  "f32_div x y = f32 (x / y)"

section \<open>Byte helpers of \<open>invent_ems.c\<close>\<close>

text \<open>
  \<open>read_u16(p)\<close> and \<open>read_i16(p)\<close> with \<open>p = &buf[k]\<close>. Both give the same 16 bits;
  the signed one is read with \<open>sint\<close> where it is used.
\<close>

definition read_u16 :: "u8 list \<Rightarrow> nat \<Rightarrow> u16" where
  "read_u16 buf k = (ucast (buf ! k) :: u16) OR push_bit 8 (ucast (buf ! (k + 1)) :: u16)"

definition read_i16 :: "u8 list \<Rightarrow> nat \<Rightarrow> u16" where
  "read_i16 buf k = (ucast (buf ! k) :: u16) OR push_bit 8 (ucast (buf ! (k + 1)) :: u16)"

section \<open>The checksum\<close>

text \<open>The body of the \<open>for\<close> loop, the same text in \<open>checksum\<close> and \<open>calcChecksum\<close>.\<close>

definition crc_step :: "u16 \<Rightarrow> u8 \<Rightarrow> u16" where
  "crc_step crc b =
    (let d = b XOR (ucast (crc AND 0xFF) :: u8);
         d = d XOR push_bit 4 d;
         t = push_bit 8 (ucast d :: u16) OR (drop_bit 8 crc AND 0xFF);
         t = t XOR (ucast (drop_bit 4 d :: u8) :: u16);
         t = t XOR push_bit 3 (ucast d :: u16)
     in t)"

text \<open>
  The loop \<open>for (uint8_t i = 0; i <= len; i++)\<close> of the decoder. The guard in front of
  it keeps \<open>len\<close> below 62, so \<open>i\<close> never reaches 255 and the index is a natural number.
\<close>

function crc_loop :: "u8 list \<Rightarrow> nat \<Rightarrow> nat \<Rightarrow> u16 \<Rightarrow> u16" where
  "crc_loop buf len i crc =
    (if i \<le> len then crc_loop buf len (Suc i) (crc_step crc (buf ! i)) else crc)"
  by pat_completeness auto
termination
  by (relation "measure (\<lambda>(buf, len, i, crc). Suc len - i)") auto

definition MAX_RX_BUF :: nat where
  "MAX_RX_BUF = 64"

definition checksum :: "u8 list \<Rightarrow> u16" where
  "checksum buf =
    (let len = (buf ! 0) - 2 :: u8
     in if unat len \<ge> MAX_RX_BUF - 2 then 0
        else crc_loop buf (unat len) 0 0xFFFF)"

text \<open>
  The emulator's loop has no guard: with \<open>buffer[0] = 1\<close> the bound \<open>len\<close> is 255 and
  \<open>i <= len\<close> holds for every \<open>uint8_t\<close>, so the loop does not end. The index is an
  8-bit word here, and not returning is \<open>None\<close>.
\<close>

partial_function (option) calc_loop :: "u8 list \<Rightarrow> u8 \<Rightarrow> u8 \<Rightarrow> u16 \<Rightarrow> u16 option" where
  "calc_loop buffer len i crc =
    (if i \<le> len then calc_loop buffer len (i + 1) (crc_step crc (buffer ! unat i))
     else Some crc)"

definition calcChecksum :: "u8 list \<Rightarrow> u16 option" where
  "calcChecksum buffer = calc_loop buffer ((buffer ! 0) - 2) 0 0xFFFF"

text \<open>
  The checksum as the specification words it: the accumulator starts at \<open>0xFFFF\<close>, and
  each byte \<open>d\<close> is folded in.
\<close>

definition spec_crc_byte :: "u8 \<Rightarrow> u16 \<Rightarrow> u16" where
  "spec_crc_byte d acc =
    (let d1 = d XOR ucast acc;
         d2 = d1 XOR push_bit 4 d1
     in (push_bit 8 (ucast d2) OR drop_bit 8 acc)
        XOR ucast (drop_bit 4 d2) XOR push_bit 3 (ucast d2))"

definition spec_checksum :: "u8 list \<Rightarrow> u16" where
  "spec_checksum bytes = fold spec_crc_byte bytes 0xFFFF"

section \<open>The telemetry record (\<open>invent_ems.h\<close>)\<close>

text \<open>
  \<open>invent_ems_data_t\<close>, field by field. The signed 8- and 16-bit fields hold the bits and
  are read with \<open>sint\<close>; the two arrays are lists.
\<close>

type_synonym i8 = "8 word"
type_synonym i16 = "16 word"

record invent_ems_data_t =
  connected :: bool
  packet_count :: u32
  error_count :: u32
  rpm :: cfloat
  ign_angle :: cfloat
  inj_time_ms :: cfloat
  tps :: cfloat
  dbw_pos :: cfloat
  map_kpa :: cfloat
  lambda :: cfloat
  speed :: cfloat
  fuel_flow :: cfloat
  knock_v :: cfloat
  transient_corr :: i8
  runlevel :: u8
  cyl_no :: u8
  corr_angle :: i8
  lambda_target :: cfloat
  lambda_corr_fast :: i8
  lambda_corr_slow :: i8
  fuel_pressure_kpa :: cfloat
  dwell_ms :: cfloat
  voltage :: cfloat
  gear :: i8
  dbw_cmd :: cfloat
  lambda2 :: cfloat
  flag_major :: u8
  flag_minor :: u8
  flag_notify :: u8
  flag_notify2 :: u8
  flag_protection :: u8
  idle_pos :: cfloat
  airflow :: u16
  boost_duty :: u8
  boost_target :: u8
  egr_pos :: u8
  egr_target :: u8
  inj_duty :: u8
  inj_lag_time :: i16
  inj_end_angle :: i8
  fuel_press_coef :: u8
  air_charge_t :: i8
  inj_air_charge_corr :: i8
  speed2 :: u8
  back_pressure_kpa :: cfloat
  ign_accel_corr :: i16
  vvt1_curr :: i8
  vvt1_target :: i8
  vvt2_curr :: i8
  vvt2_target :: i8
  vvt1b_curr :: i8
  vvt2b_curr :: i8
  tcs_corr :: u8
  pwm3d_target :: cfloat
  pwm3d_curr :: cfloat
  trip_fuel_l :: cfloat
  trip_path_km :: cfloat
  curr_fuel_cons :: cfloat
  trip_fuel_cons :: cfloat
  fuel_composition :: cfloat
  adc_tps :: u8
  adc_ct :: u8
  adc_iat :: u8
  adc_dbw1 :: u8
  adc_dbw2 :: u8
  adc_map :: u8
  adc_lambda :: u8
  adc_an :: "u8 list"
  input_state :: u8
  output_state :: u16
  dbw_driver_status :: u8
  dbw_system_status :: u8
  gas_state :: u8
  at_temp :: i8
  at_state :: u8
  fuel_level :: u8
  clt :: cfloat
  iat :: cfloat
  oil_temp :: cfloat
  fuel_temp :: cfloat
  egt1 :: cfloat
  egt2 :: cfloat
  oil_pressure :: cfloat
  pwm_duty :: "cfloat list"

text \<open>Conversions of an integer to \<open>float\<close>.\<close>

definition f_u8 :: "u8 \<Rightarrow> real" where
  "f_u8 b = real (unat b)"

definition f_i8 :: "i8 \<Rightarrow> real" where
  "f_i8 b = real_of_int (sint b)"

definition f_u16 :: "u16 \<Rightarrow> real" where
  "f_u16 w = real (unat w)"

definition f_i16 :: "i16 \<Rightarrow> real" where
  "f_i16 w = real_of_int (sint w)"

section \<open>The serial decoder (\<open>invent_ems.c\<close>)\<close>

definition HEADER_0 :: u8 where "HEADER_0 = 0x55"
definition HEADER_1 :: u8 where "HEADER_1 = 0x00"
definition HEADER_2 :: u8 where "HEADER_2 = 0xAA"
definition HEADER_3 :: u8 where "HEADER_3 = 0x00"
definition INVENT_EMS_PROTOCOL_VER :: u8 where "INVENT_EMS_PROTOCOL_VER = 0x54"
definition MAX_PACKET_LEN :: u8 where "MAX_PACKET_LEN = 48"
definition MIN_PACKET_LEN :: u8 where "MIN_PACKET_LEN = 4"
definition SLOW_PACKET_OFFSET :: nat where "SLOW_PACKET_OFFSET = 25"
definition SLOW_PACKET_SIZE :: nat where "SLOW_PACKET_SIZE = 11"
definition SLOW_PACKET_COUNT :: u8 where "SLOW_PACKET_COUNT = 10"

definition parse_fast :: "u8 list \<Rightarrow> invent_ems_data_t \<Rightarrow> invent_ems_data_t" where
  "parse_fast buf e =
    (let period = read_u16 buf 6
     in e\<lparr> runlevel := buf ! 2,
           ign_angle := Fin (f32_mul (f_i16 (read_i16 buf 3)) 0.25),
           fuel_flow := Fin (f32_mul (f_u8 (buf ! 5)) (f32_div 1 16)),
           rpm := (if period > 0 then Fin (f32_div 10000000 (f_u16 period)) else Fin 0),
           inj_time_ms := Fin (f32_mul (f_u16 (read_u16 buf 8)) (f32 0.004)),
           knock_v := Fin (f32_mul (f_u8 (buf ! 10)) (f32_div 5 256)),
           tps := Fin (f32_mul (f_u8 (buf ! 11)) (f32_div 100 255)),
           dbw_pos := Fin (f32_mul (f_u8 (buf ! 12)) (f32_div 100 255)),
           map_kpa := Fin (f32_mul (f_u8 (buf ! 13)) 2),
           lambda := Fin (f32_mul (f_u8 (buf ! 14)) (f32_div 1 128)),
           cyl_no := buf ! 15,
           transient_corr := buf ! 16,
           speed := Fin (f_u8 (buf ! 17)) \<rparr>)"

text \<open>\<open>parse_slow(id, s)\<close>: \<open>s\<close> is the list of the bytes from \<open>&rxbuf[25]\<close> on.\<close>

definition parse_slow :: "u8 \<Rightarrow> u8 list \<Rightarrow> invent_ems_data_t \<Rightarrow> invent_ems_data_t" where
  "parse_slow ident s e =
    (if ident = 0 then
       e\<lparr> corr_angle := s ! 0,
          lambda_target := Fin (f32_mul (f_u8 (s ! 1)) (f32_div 1 128)),
          lambda_corr_fast := s ! 2,
          lambda_corr_slow := s ! 3,
          fuel_pressure_kpa := Fin (f_u16 (read_u16 s 4)),
          dwell_ms := Fin (f_u8 (s ! 6)),
          voltage := Fin (f32_mul (f_u8 (s ! 7)) (f32 0.1)),
          gear := s ! 8,
          dbw_cmd := Fin (f_u8 (s ! 9)),
          lambda2 := Fin (f32_mul (f_u8 (s ! 10)) (f32_div 1 128)) \<rparr>
     else if ident = 1 then
       e\<lparr> flag_major := s ! 0,
          flag_minor := s ! 1,
          flag_notify := s ! 2,
          flag_notify2 := s ! 3,
          flag_protection := s ! 4,
          idle_pos := Fin (f32_mul (f_u8 (s ! 5)) (f32_div 100 256)),
          airflow := read_u16 s 6,
          boost_duty := s ! 8,
          boost_target := s ! 9 \<rparr>
     else if ident = 2 then
       e\<lparr> egr_pos := s ! 0,
          egr_target := s ! 1,
          inj_duty := s ! 2,
          inj_lag_time := read_i16 s 3,
          inj_end_angle := s ! 5,
          fuel_press_coef := s ! 6,
          air_charge_t := s ! 7,
          inj_air_charge_corr := s ! 8,
          speed2 := s ! 9,
          back_pressure_kpa := Fin (f32_mul (f_u8 (s ! 10)) 2) \<rparr>
     else if ident = 3 then
       e\<lparr> ign_accel_corr := read_i16 s 0,
          vvt1_curr := s ! 2,
          vvt1_target := s ! 3,
          vvt2_curr := s ! 4,
          vvt2_target := s ! 5,
          vvt1b_curr := s ! 6,
          vvt2b_curr := s ! 7,
          tcs_corr := s ! 8,
          pwm3d_target := Fin (f32_mul (f_u8 (s ! 9)) (f32_div 100 256)),
          pwm3d_curr := Fin (f32_mul (f_u8 (s ! 10)) (f32_div 100 256)) \<rparr>
     else if ident = 4 then
       e\<lparr> trip_fuel_l := Fin (f32_mul (f_u16 (read_u16 s 0)) (f32 0.01)),
          trip_path_km := Fin (f32_mul (f_u16 (read_u16 s 2)) (f32 0.1)),
          curr_fuel_cons := Fin (f32_mul (f_u16 (read_u16 s 4)) (f32 0.1)),
          trip_fuel_cons := Fin (f32_mul (f_u16 (read_u16 s 6)) (f32 0.1)),
          fuel_composition := Fin (f32_mul (f_u8 (s ! 8)) (f32_div 100 256)) \<rparr>
     else if ident = 5 then
       e\<lparr> adc_tps := s ! 0,
          adc_ct := s ! 1,
          adc_iat := s ! 2,
          adc_dbw1 := s ! 3,
          adc_dbw2 := s ! 4,
          adc_map := s ! 5,
          adc_lambda := s ! 6 \<rparr>
     else if ident = 6 then
       e\<lparr> adc_an := map (\<lambda>i. s ! i) [0..<10] \<rparr>
     else if ident = 7 then
       e\<lparr> input_state := s ! 0,
          output_state := read_u16 s 1,
          dbw_driver_status := s ! 3,
          dbw_system_status := s ! 4,
          gas_state := s ! 5,
          at_temp := s ! 6,
          at_state := s ! 7,
          fuel_level := s ! 8 \<rparr>
     else if ident = 8 then
       e\<lparr> clt := Fin (f_i8 (s ! 0)),
          iat := Fin (f_i8 (s ! 1)),
          oil_temp := Fin (f_u8 (s ! 2)),
          fuel_temp := Fin (f_i8 (s ! 3)),
          egt1 := Fin (f_u16 (read_u16 s 5)),
          egt2 := Fin (f_u16 (read_u16 s 7)),
          oil_pressure := Fin (f32_mul (f_u8 (s ! 9)) (f32 0.1)) \<rparr>
     else if ident = 9 then
       e\<lparr> pwm_duty :=
            map (\<lambda>i. Fin (f32_mul (f_u8 (s ! i)) (f32_div 100 256))) [0..<6] \<rparr>
     else e)"

text \<open>
  The parser state: the three statics of the state machine, the telemetry record and the
  new-data flag.
\<close>

record parser =
  rxstate :: u8
  rxbuf :: "u8 list"
  rxptr :: u8
  ecu_data :: invent_ems_data_t
  new_data_flag :: bool

definition parse_packet :: "parser \<Rightarrow> parser" where
  "parse_packet p =
    (let e = parse_fast (rxbuf p) (ecu_data p);
         slow_id = rxbuf p ! 24;
         e = (if slow_id < SLOW_PACKET_COUNT
              then parse_slow slow_id (drop SLOW_PACKET_OFFSET (rxbuf p)) e else e);
         e = e\<lparr> connected := True \<rparr>;
         e = e\<lparr> packet_count := packet_count e + 1 \<rparr>
     in p\<lparr> ecu_data := e, new_data_flag := True \<rparr>)"

text \<open>
  \<open>memset(&ecu_data, 0, sizeof(ecu_data))\<close>: every field is zero, the floats \<open>0.0\<close>.
\<close>

definition zero_data :: invent_ems_data_t where
  "zero_data =
    \<lparr> connected = False, packet_count = 0, error_count = 0,
      rpm = Fin 0, ign_angle = Fin 0, inj_time_ms = Fin 0, tps = Fin 0, dbw_pos = Fin 0,
      map_kpa = Fin 0, lambda = Fin 0, speed = Fin 0, fuel_flow = Fin 0, knock_v = Fin 0,
      transient_corr = 0, runlevel = 0, cyl_no = 0,
      corr_angle = 0, lambda_target = Fin 0, lambda_corr_fast = 0, lambda_corr_slow = 0,
      fuel_pressure_kpa = Fin 0, dwell_ms = Fin 0, voltage = Fin 0, gear = 0,
      dbw_cmd = Fin 0, lambda2 = Fin 0,
      flag_major = 0, flag_minor = 0, flag_notify = 0, flag_notify2 = 0,
      flag_protection = 0, idle_pos = Fin 0, airflow = 0, boost_duty = 0, boost_target = 0,
      egr_pos = 0, egr_target = 0, inj_duty = 0, inj_lag_time = 0, inj_end_angle = 0,
      fuel_press_coef = 0, air_charge_t = 0, inj_air_charge_corr = 0, speed2 = 0,
      back_pressure_kpa = Fin 0,
      ign_accel_corr = 0, vvt1_curr = 0, vvt1_target = 0, vvt2_curr = 0, vvt2_target = 0,
      vvt1b_curr = 0, vvt2b_curr = 0, tcs_corr = 0, pwm3d_target = Fin 0, pwm3d_curr = Fin 0,
      trip_fuel_l = Fin 0, trip_path_km = Fin 0, curr_fuel_cons = Fin 0,
      trip_fuel_cons = Fin 0, fuel_composition = Fin 0,
      adc_tps = 0, adc_ct = 0, adc_iat = 0, adc_dbw1 = 0, adc_dbw2 = 0, adc_map = 0,
      adc_lambda = 0,
      adc_an = replicate 10 0,
      input_state = 0, output_state = 0, dbw_driver_status = 0, dbw_system_status = 0,
      gas_state = 0, at_temp = 0, at_state = 0, fuel_level = 0,
      clt = Fin 0, iat = Fin 0, oil_temp = Fin 0, fuel_temp = Fin 0, egt1 = Fin 0,
      egt2 = Fin 0, oil_pressure = Fin 0,
      pwm_duty = replicate 6 (Fin 0) \<rparr>"

text \<open>\<open>invent_ems_init\<close> leaves \<open>rxbuf\<close> as it is.\<close>

definition invent_ems_init :: "parser \<Rightarrow> parser" where
  "invent_ems_init p =
    p\<lparr> ecu_data := zero_data
          \<lparr> rpm := NaN, ign_angle := NaN, inj_time_ms := NaN, tps := NaN, dbw_pos := NaN,
            map_kpa := NaN, lambda := NaN, speed := NaN, fuel_flow := NaN, knock_v := NaN,
            lambda_target := NaN, fuel_pressure_kpa := NaN, dwell_ms := NaN, voltage := NaN,
            dbw_cmd := NaN, lambda2 := NaN,
            idle_pos := NaN, back_pressure_kpa := NaN,
            pwm3d_target := NaN, pwm3d_curr := NaN,
            trip_fuel_l := NaN, trip_path_km := NaN, curr_fuel_cons := NaN,
            trip_fuel_cons := NaN, fuel_composition := NaN,
            clt := NaN, iat := NaN, oil_temp := NaN, fuel_temp := NaN, egt1 := NaN,
            egt2 := NaN, oil_pressure := NaN,
            pwm_duty := replicate 6 NaN \<rparr>,
       rxstate := 0, rxptr := 0, new_data_flag := False \<rparr>"

text \<open>The statics at program start (all zero), and the parser after \<open>invent_ems_init\<close>.\<close>

definition power_on :: parser where
  "power_on = \<lparr> rxstate = 0, rxbuf = replicate MAX_RX_BUF 0, rxptr = 0,
                ecu_data = zero_data, new_data_flag = False \<rparr>"

definition initial_parser :: parser where
  "initial_parser = invent_ems_init power_on"

text \<open>
  \<open>case 6\<close> of the switch. The indices \<open>rxptr - 2\<close> and \<open>rxptr - 1\<close> are computed in
  \<open>int\<close> in C; in every state the parser reaches from \<open>invent_ems_init\<close> they lie in
  \<open>3 .. 48\<close> (see \<open>parser_ok\<close>).
\<close>

definition accumulate :: "u8 \<Rightarrow> parser \<Rightarrow> parser" where
  "accumulate byte p =
    (let p = (if unat (rxptr p) < MAX_RX_BUF
              then p\<lparr> rxbuf := (rxbuf p)[unat (rxptr p) := byte] \<rparr> else p);
         p = p\<lparr> rxptr := rxptr p + 1 \<rparr>
     in if rxptr p > rxbuf p ! 0 then
          (let crc_rx = (ucast (rxbuf p ! (unat (rxptr p) - 2)) :: u16)
                        OR push_bit 8 (ucast (rxbuf p ! (unat (rxptr p) - 1)) :: u16);
               crc_calc = checksum (rxbuf p);
               p = (if crc_calc = crc_rx then parse_packet p
                    else p\<lparr> ecu_data := (ecu_data p)
                            \<lparr> error_count := error_count (ecu_data p) + 1 \<rparr> \<rparr>)
           in p\<lparr> rxstate := 0 \<rparr>)
        else p)"

text \<open>One pass through the \<open>switch\<close>: the new state and the value of \<open>retry\<close>.\<close>

definition feed_switch :: "u8 \<Rightarrow> parser \<Rightarrow> parser \<times> bool" where
  "feed_switch byte p =
    (if rxstate p = 0 then
       (if byte = HEADER_0 then p\<lparr> rxstate := rxstate p + 1 \<rparr> else p, False)
     else if rxstate p = 1 then
       (if byte = HEADER_1 then (p\<lparr> rxstate := rxstate p + 1 \<rparr>, False)
        else (p\<lparr> rxstate := 0 \<rparr>, True))
     else if rxstate p = 2 then
       (if byte = HEADER_2 then (p\<lparr> rxstate := rxstate p + 1 \<rparr>, False)
        else (p\<lparr> rxstate := 0 \<rparr>, True))
     else if rxstate p = 3 then
       (if byte = HEADER_3 then (p\<lparr> rxstate := rxstate p + 1 \<rparr>, False)
        else (p\<lparr> rxstate := 0 \<rparr>, True))
     else if rxstate p = 4 then
       (if byte = INVENT_EMS_PROTOCOL_VER then (p\<lparr> rxstate := rxstate p + 1 \<rparr>, False)
        else (p\<lparr> rxstate := 0 \<rparr>, True))
     else if rxstate p = 5 then
       (if byte \<ge> MIN_PACKET_LEN \<and> byte \<le> MAX_PACKET_LEN
        then p\<lparr> rxbuf := (rxbuf p)[0 := byte], rxptr := 1, rxstate := rxstate p + 1 \<rparr>
        else p\<lparr> rxstate := 0 \<rparr>, False)
     else if rxstate p = 6 then (accumulate byte p, False)
     else (p\<lparr> rxstate := 0 \<rparr>, False))"

text \<open>The \<open>do \<dots> while (retry)\<close> loop of \<open>invent_ems_feed_byte\<close>.\<close>

function invent_ems_feed_byte :: "u8 \<Rightarrow> parser \<Rightarrow> parser" where
  "invent_ems_feed_byte byte p =
    (case feed_switch byte p of
       (p', retry) \<Rightarrow> if retry then invent_ems_feed_byte byte p' else p')"
  by pat_completeness auto
termination
proof (relation "measure (\<lambda>(byte, p). if rxstate p = 0 then 0 else 1)")
  show "wf (measure (\<lambda>(byte, p). if rxstate p = (0 :: u8) then 0 else (1 :: nat)))"
    by simp
next
  fix byte :: u8 and p x :: parser and y :: bool
  assume "(x, y) = feed_switch byte p" and y
  then have "rxstate x = 0 \<and> rxstate p \<noteq> 0"
    by (auto simp: feed_switch_def split: if_splits)
  then show "((byte, x), (byte, p)) \<in> measure (\<lambda>(byte, p). if rxstate p = 0 then 0 else 1)"
    by simp
qed

declare invent_ems_feed_byte.simps [simp del]

text \<open>The main loop feeds the bytes it drains one after the other.\<close>

fun feed_bytes :: "u8 list \<Rightarrow> parser \<Rightarrow> parser" where
  "feed_bytes [] p = p"
| "feed_bytes (b # bs) p = feed_bytes bs (invent_ems_feed_byte b p)"

text \<open>
  The number of frames decoded while a byte sequence is fed: the calls of
  \<open>invent_ems_feed_byte\<close> that change \<open>packet_count\<close>, which only \<open>parse_packet\<close> does.
\<close>

fun frames_decoded :: "u8 list \<Rightarrow> parser \<Rightarrow> nat" where
  "frames_decoded [] p = 0"
| "frames_decoded (b # bs) p =
    (if packet_count (ecu_data (invent_ems_feed_byte b p)) \<noteq> packet_count (ecu_data p)
     then 1 else 0) + frames_decoded bs (invent_ems_feed_byte b p)"

definition invent_ems_has_new_data :: "parser \<Rightarrow> bool \<times> parser" where
  "invent_ems_has_new_data p =
    (if new_data_flag p then (True, p\<lparr> new_data_flag := False \<rparr>) else (False, p))"

section \<open>The bus-frame decoder\<close>

text \<open>
  \<open>invent_ems_feed_can_frame(id, d, dlc)\<close>: the result and the new state. \<open>d\<close> is the
  8-byte payload; \<open>dlc\<close> is not used.
\<close>

definition invent_ems_feed_can_frame :: "u32 \<Rightarrow> u8 list \<Rightarrow> u8 \<Rightarrow> parser \<Rightarrow> bool \<times> parser" where
  "invent_ems_feed_can_frame ident d dlc p =
    (let e = ecu_data p;
         r = (if ident = 0x300 then
                Some (e\<lparr> rpm := Fin (f_u16 (read_u16 d 0)),
                         tps := Fin (f32_mul (f_i16 (read_i16 d 2)) (f32 0.1)),
                         map_kpa := Fin (f32_mul (f_u16 (read_u16 d 4)) (f32 0.01)),
                         iat := Fin (f32_mul (f_i16 (read_i16 d 6)) (f32 0.1)) \<rparr>)
              else if ident = 0x302 then
                Some (e\<lparr> ign_angle := Fin (f32_mul (f_i16 (read_i16 d 0)) (f32 0.1)),
                         dwell_ms := Fin (f32_mul (f_u16 (read_u16 d 2)) (f32 0.1)),
                         inj_time_ms := Fin (f32_mul (f_u16 (read_u16 d 6)) (f32 0.001)) \<rparr>)
              else if ident = 0x304 then
                Some (e\<lparr> oil_temp := Fin (f32_mul (f_i16 (read_i16 d 0)) (f32 0.1)),
                         oil_pressure :=
                           Fin (f32_div (f32_mul (f_i16 (read_i16 d 2)) (f32 0.1)) 100),
                         clt := Fin (f32_mul (f_i16 (read_i16 d 4)) (f32 0.1)),
                         voltage := Fin (f32_mul (f_i16 (read_i16 d 6)) (f32 0.1)) \<rparr>)
              else if ident = 0x305 then
                Some (e\<lparr> gear := ucast (read_i16 d 0),
                         speed := Fin (f32_mul (f_u16 (read_u16 d 4)) (f32 0.1)) \<rparr>)
              else if ident = 0x306 then
                Some (e\<lparr> knock_v := Fin (f32_mul (f_i16 (read_i16 d 0)) (f32 0.1)),
                         fuel_pressure_kpa := Fin (f32_mul (f_u16 (read_u16 d 4)) (f32 0.1)),
                         fuel_temp := Fin (f32_mul (f_i16 (read_i16 d 6)) (f32 0.1)) \<rparr>)
              else if ident = 0x307 then
                Some (e\<lparr> egt1 := Fin (f32_mul (f_i16 (read_i16 d 0)) (f32 0.1)),
                         egt2 := Fin (f32_mul (f_i16 (read_i16 d 2)) (f32 0.1)) \<rparr>)
              else if ident = 0x340 then
                Some (e\<lparr> speed := Fin (f32_mul (f_u16 (read_u16 d 0)) (f32 0.1)) \<rparr>)
              else None)
     in case r of
          None \<Rightarrow> (False, p)
        | Some e' \<Rightarrow> (True, p\<lparr> ecu_data := e'\<lparr> connected := True \<rparr>, new_data_flag := True \<rparr>))"

section \<open>The emulator (\<open>CarEmu.c\<close>)\<close>

text \<open>
  \<open>EngineState\<close>; the field \<open>eng.x\<close> is \<open>eng_x\<close>. Its \<open>float\<close> fields are finite
  single-precision values.
\<close>

record EngineState =
  eng_rpm :: real
  eng_angleDeg :: real
  eng_tpsPercent :: real
  eng_dbwPercent :: real
  eng_mapKpa :: real
  eng_lambdaVal :: real
  eng_injTimeMs :: real
  eng_rashodLH :: real
  eng_knockV :: u8
  eng_cylNo :: u8
  eng_transCorr :: i8
  eng_speed :: u8
  eng_runlevel :: u8
  eng_corrAngle :: i8
  eng_lambdaTarget :: real
  eng_lambdaCorrFast :: i8
  eng_lambdaCorrSlow :: i8
  eng_fuelPKpa :: u16
  eng_dwellTime :: u8
  eng_voltageV :: real
  eng_gearNo :: i8
  eng_dbwCmdPos :: u8
  eng_lambda2Val :: real
  eng_flagMajor :: u8
  eng_flagMinor :: u8
  eng_flagNotify :: u8
  eng_flagNotify2 :: u8
  eng_flagProtection :: u8
  eng_idlePosPercent :: real
  eng_airflow :: u16
  eng_boostDuty :: u8
  eng_boostTarget :: u8
  eng_egrCurrPos :: u8
  eng_egrTargetPos :: u8
  eng_injDutyCycle :: u8
  eng_injLagTime :: i16
  eng_injEndAngle4 :: i8
  eng_fuelPressCoef :: u8
  eng_airChargeT :: i8
  eng_injAirChargeCorr :: i8
  eng_speed2 :: u8
  eng_backPKpa :: real
  eng_ignAccelCorr :: i16
  eng_vvt1Curr :: i8
  eng_vvt1Target :: i8
  eng_vvt2Curr :: i8
  eng_vvt2Target :: i8
  eng_vvt1bCurr :: i8
  eng_vvt2bCurr :: i8
  eng_tcsCorr :: u8
  eng_pwm3dTarget :: real
  eng_pwm3dCurr :: real
  eng_tripFuelL :: real
  eng_tripPathKm :: real
  eng_currFuelCons :: real
  eng_tripFuelCons :: real
  eng_fuelCompPct :: real
  eng_adcTpsV :: real
  eng_adcCtV :: real
  eng_adcIatV :: real
  eng_dbwAdc1V :: real
  eng_dbwAdc2V :: real
  eng_adcMapV :: real
  eng_adcLambdaV :: real
  eng_adcAn :: "real list"
  eng_inputState :: u8
  eng_outputState :: u16
  eng_dbwDriverStatus :: u8
  eng_dbwSystemStatus :: u8
  eng_gasState :: u8
  eng_atTemp :: i8
  eng_atState :: u8
  eng_fuelLevel :: u8
  eng_clt :: i8
  eng_iat :: i8
  eng_oilT :: u8
  eng_fuelT :: i8
  eng_egt1 :: u16
  eng_egt2 :: u16
  eng_oilPBar :: real
  eng_cltOverride :: bool
  eng_oilTOverride :: bool
  eng_oilPOverride :: bool
  eng_pwmDuty :: "real list"
  eng_afrTarget :: real
  eng_rpmHardLimit :: u16
  eng_knockEvsCnt :: u16
  eng_mapTargetKpa :: real

text \<open>
  \<open>initEngineState\<close>: all zero, then the idle values. A literal such as \<open>14.1f\<close> is the
  single-precision value next to 14.1.
\<close>

definition zero_engine :: EngineState where
  "zero_engine =
    \<lparr> eng_rpm = 0, eng_angleDeg = 0, eng_tpsPercent = 0, eng_dbwPercent = 0, eng_mapKpa = 0,
      eng_lambdaVal = 0, eng_injTimeMs = 0, eng_rashodLH = 0, eng_knockV = 0, eng_cylNo = 0,
      eng_transCorr = 0, eng_speed = 0, eng_runlevel = 0,
      eng_corrAngle = 0, eng_lambdaTarget = 0, eng_lambdaCorrFast = 0, eng_lambdaCorrSlow = 0,
      eng_fuelPKpa = 0, eng_dwellTime = 0, eng_voltageV = 0, eng_gearNo = 0, eng_dbwCmdPos = 0,
      eng_lambda2Val = 0,
      eng_flagMajor = 0, eng_flagMinor = 0, eng_flagNotify = 0, eng_flagNotify2 = 0,
      eng_flagProtection = 0, eng_idlePosPercent = 0, eng_airflow = 0, eng_boostDuty = 0,
      eng_boostTarget = 0,
      eng_egrCurrPos = 0, eng_egrTargetPos = 0, eng_injDutyCycle = 0, eng_injLagTime = 0,
      eng_injEndAngle4 = 0, eng_fuelPressCoef = 0, eng_airChargeT = 0,
      eng_injAirChargeCorr = 0, eng_speed2 = 0, eng_backPKpa = 0,
      eng_ignAccelCorr = 0, eng_vvt1Curr = 0, eng_vvt1Target = 0, eng_vvt2Curr = 0,
      eng_vvt2Target = 0, eng_vvt1bCurr = 0, eng_vvt2bCurr = 0, eng_tcsCorr = 0,
      eng_pwm3dTarget = 0, eng_pwm3dCurr = 0,
      eng_tripFuelL = 0, eng_tripPathKm = 0, eng_currFuelCons = 0, eng_tripFuelCons = 0,
      eng_fuelCompPct = 0,
      eng_adcTpsV = 0, eng_adcCtV = 0, eng_adcIatV = 0, eng_dbwAdc1V = 0, eng_dbwAdc2V = 0,
      eng_adcMapV = 0, eng_adcLambdaV = 0,
      eng_adcAn = replicate 10 0,
      eng_inputState = 0, eng_outputState = 0, eng_dbwDriverStatus = 0,
      eng_dbwSystemStatus = 0, eng_gasState = 0, eng_atTemp = 0, eng_atState = 0,
      eng_fuelLevel = 0,
      eng_clt = 0, eng_iat = 0, eng_oilT = 0, eng_fuelT = 0, eng_egt1 = 0, eng_egt2 = 0,
      eng_oilPBar = 0,
      eng_cltOverride = False, eng_oilTOverride = False, eng_oilPOverride = False,
      eng_pwmDuty = replicate 6 0,
      eng_afrTarget = 0, eng_rpmHardLimit = 0, eng_knockEvsCnt = 0, eng_mapTargetKpa = 0 \<rparr>"

definition initEngineState :: EngineState where
  "initEngineState =
    zero_engine
    \<lparr> eng_rpm := 850, eng_angleDeg := 10, eng_tpsPercent := 5, eng_dbwPercent := 5,
      eng_mapKpa := 35, eng_lambdaVal := 1, eng_injTimeMs := 2.5, eng_rashodLH := 1.5,
      eng_knockV := 10, eng_runlevel := 2,
      eng_corrAngle := - 2, eng_lambdaTarget := 1, eng_lambdaCorrFast := 3,
      eng_lambdaCorrSlow := - 1, eng_fuelPKpa := 300, eng_dwellTime := 35,
      eng_voltageV := f32 14.1, eng_dbwCmdPos := 12, eng_lambda2Val := f32 1.02,
      eng_flagNotify := 0x10, eng_idlePosPercent := 30, eng_airflow := 120,
      eng_boostTarget := 50,
      eng_injDutyCycle := 15, eng_injLagTime := 120, eng_injEndAngle4 := - 20,
      eng_fuelPressCoef := 100, eng_airChargeT := 25, eng_backPKpa := 101,
      eng_vvt1Curr := 5, eng_vvt1Target := 10,
      eng_tripFuelL := 3.25, eng_tripPathKm := 42.5, eng_currFuelCons := f32 7.6,
      eng_tripFuelCons := f32 7.6,
      eng_adcTpsV := f32 0.8, eng_adcCtV := f32 2.1, eng_adcIatV := 2.5,
      eng_dbwAdc1V := f32 0.8,
      eng_dbwAdc2V := f32 3.2, eng_adcMapV := 1, eng_adcLambdaV := f32 0.45,
      eng_adcAn := replicate 10 1,
      eng_atTemp := 60, eng_fuelLevel := 128,
      eng_clt := 85, eng_iat := 30, eng_oilT := 95, eng_fuelT := 35, eng_egt1 := 650,
      eng_egt2 := 640, eng_oilPBar := 3.5,
      eng_pwmDuty := (replicate 6 0)[0 := 50],
      eng_afrTarget := f32 14.7, eng_rpmHardLimit := 8000, eng_knockEvsCnt := 0,
      eng_mapTargetKpa := 100 \<rparr>"

text \<open>
  The conversions of a \<open>float\<close> to an integer type. A C cast drops the fraction (rounds
  towards zero); C leaves the result undefined when the value does not fit the target
  type. The model wraps a 16-bit result there, and keeps the 32-bit intermediate of
  \<open>rpmToPeriod\<close> unbounded.
\<close>

definition c_trunc :: "real \<Rightarrow> int" where
  "c_trunc x = (if x \<ge> 0 then \<lfloor>x\<rfloor> else \<lceil>x\<rceil>)"

definition to_i16 :: "real \<Rightarrow> i16" where
  "to_i16 x = word_of_int (c_trunc x)"

definition to_u16 :: "real \<Rightarrow> u16" where
  "to_u16 x = word_of_int (c_trunc x)"

definition rpmToPeriod :: "real \<Rightarrow> u16" where
  "rpmToPeriod r =
    (if r \<le> 0 then 0
     else (let p = c_trunc (f32_div 10000000 r)
           in if p > 65535 then 65535 else word_of_int p))"

definition clampU8 :: "real \<Rightarrow> u8" where
  "clampU8 v =
    (if v < 0 then 0 else if v > 255 then 255 else word_of_int (c_trunc (f32_add v 0.5)))"

text \<open>
  The packet is a packed struct on a little-endian machine: a 16-bit field is two bytes,
  the low one first.
\<close>

definition le16 :: "u16 \<Rightarrow> u8 list" where
  "le16 w = [ucast w, ucast (drop_bit 8 w)]"

definition fillSlow0 :: "EngineState \<Rightarrow> u8 list" where
  "fillSlow0 eng =
     [eng_corrAngle eng, clampU8 (f32_mul (eng_lambdaTarget eng) 128), eng_lambdaCorrFast eng,
      eng_lambdaCorrSlow eng]
     @ le16 (eng_fuelPKpa eng)
     @ [eng_dwellTime eng, clampU8 (f32_div (eng_voltageV eng) (f32 0.1)), eng_gearNo eng,
        eng_dbwCmdPos eng, clampU8 (f32_mul (eng_lambda2Val eng) 128)]"

definition fillSlow1 :: "EngineState \<Rightarrow> u8 list" where
  "fillSlow1 eng =
     [eng_flagMajor eng, eng_flagMinor eng, eng_flagNotify eng, eng_flagNotify2 eng,
      eng_flagProtection eng, clampU8 (f32_div (f32_mul (eng_idlePosPercent eng) 256) 100)]
     @ le16 (eng_airflow eng)
     @ [eng_boostDuty eng, eng_boostTarget eng, 0]"

definition fillSlow2 :: "EngineState \<Rightarrow> u8 list" where
  "fillSlow2 eng =
     [eng_egrCurrPos eng, eng_egrTargetPos eng, eng_injDutyCycle eng]
     @ le16 (eng_injLagTime eng)
     @ [eng_injEndAngle4 eng, eng_fuelPressCoef eng, eng_airChargeT eng,
        eng_injAirChargeCorr eng, eng_speed2 eng, clampU8 (f32_div (eng_backPKpa eng) 2)]"

definition fillSlow3 :: "EngineState \<Rightarrow> u8 list" where
  "fillSlow3 eng =
     le16 (eng_ignAccelCorr eng)
     @ [eng_vvt1Curr eng, eng_vvt1Target eng, eng_vvt2Curr eng, eng_vvt2Target eng,
        eng_vvt1bCurr eng, eng_vvt2bCurr eng, eng_tcsCorr eng,
        clampU8 (f32_div (f32_mul (eng_pwm3dTarget eng) 256) 100),
        clampU8 (f32_div (f32_mul (eng_pwm3dCurr eng) 256) 100)]"

definition fillSlow4 :: "EngineState \<Rightarrow> u8 list" where
  "fillSlow4 eng =
     le16 (to_u16 (f32_div (eng_tripFuelL eng) (f32 0.01)))
     @ le16 (to_u16 (f32_div (eng_tripPathKm eng) (f32 0.1)))
     @ le16 (to_u16 (f32_div (eng_currFuelCons eng) (f32 0.1)))
     @ le16 (to_u16 (f32_div (eng_tripFuelCons eng) (f32 0.1)))
     @ [clampU8 (f32_div (f32_mul (eng_fuelCompPct eng) 256) 100), 0, 0]"

definition fillSlow5 :: "EngineState \<Rightarrow> u8 list" where
  "fillSlow5 eng =
     [clampU8 (f32_div (f32_mul (eng_adcTpsV eng) 256) 5),
      clampU8 (f32_div (f32_mul (eng_adcCtV eng) 256) 5),
      clampU8 (f32_div (f32_mul (eng_adcIatV eng) 256) 5),
      clampU8 (f32_div (f32_mul (eng_dbwAdc1V eng) 256) 5),
      clampU8 (f32_div (f32_mul (eng_dbwAdc2V eng) 256) 5),
      clampU8 (f32_div (f32_mul (eng_adcMapV eng) 256) 5),
      clampU8 (f32_div (f32_mul (eng_adcLambdaV eng) 256) 5), 0, 0, 0, 0]"

definition fillSlow6 :: "EngineState \<Rightarrow> u8 list" where
  "fillSlow6 eng =
     map (\<lambda>i. clampU8 (f32_div (f32_mul (eng_adcAn eng ! i) 256) 5)) [0..<10] @ [0]"

definition fillSlow7 :: "EngineState \<Rightarrow> u8 list" where
  "fillSlow7 eng =
     [eng_inputState eng] @ le16 (eng_outputState eng)
     @ [eng_dbwDriverStatus eng, eng_dbwSystemStatus eng, eng_gasState eng, eng_atTemp eng,
        eng_atState eng, eng_fuelLevel eng, 0, 0]"

definition fillSlow8 :: "EngineState \<Rightarrow> u8 list" where
  "fillSlow8 eng =
     [eng_clt eng, eng_iat eng, eng_oilT eng, eng_fuelT eng, 0]
     @ le16 (eng_egt1 eng) @ le16 (eng_egt2 eng)
     @ [clampU8 (f32_div (eng_oilPBar eng) (f32 0.1)), 0]"

definition fillSlow9 :: "EngineState \<Rightarrow> u8 list" where
  "fillSlow9 eng =
     [clampU8 (f32_div (f32_mul (eng_pwmDuty eng ! 0) 256) 100),
      clampU8 (f32_div (f32_mul (eng_pwmDuty eng ! 1) 256) 100),
      clampU8 (f32_div (f32_mul (eng_pwmDuty eng ! 2) 256) 100),
      clampU8 (f32_div (f32_mul (eng_pwmDuty eng ! 3) 256) 100),
      clampU8 (f32_div (f32_mul (eng_pwmDuty eng ! 4) 256) 100),
      clampU8 (f32_div (f32_mul (eng_pwmDuty eng ! 5) 256) 100),
      0, 0, 0, 0, 0]"

definition sizeof_TInfoPacket :: nat where
  "sizeof_TInfoPacket = 36"

definition HEADER :: "u8 list" where
  "HEADER = [0x55, 0x00, 0xAA, 0x00, 0x54]"

definition TOTAL_SLOW_PACKETS :: u8 where
  "TOTAL_SLOW_PACKETS = 10"

text \<open>
  The 36 bytes of the \<open>TInfoPacket\<close> that \<open>buildAndSend\<close> lays over \<open>txbuf\<close>, after the
  \<open>switch\<close> on \<open>slowPacketIndex\<close> (an index of 10 or more leaves the slow part zero).
\<close>

definition slow_part :: "EngineState \<Rightarrow> u8 \<Rightarrow> u8 list" where
  "slow_part eng slowPacketIndex =
    (if slowPacketIndex = 0 then fillSlow0 eng
     else if slowPacketIndex = 1 then fillSlow1 eng
     else if slowPacketIndex = 2 then fillSlow2 eng
     else if slowPacketIndex = 3 then fillSlow3 eng
     else if slowPacketIndex = 4 then fillSlow4 eng
     else if slowPacketIndex = 5 then fillSlow5 eng
     else if slowPacketIndex = 6 then fillSlow6 eng
     else if slowPacketIndex = 7 then fillSlow7 eng
     else if slowPacketIndex = 8 then fillSlow8 eng
     else if slowPacketIndex = 9 then fillSlow9 eng
     else replicate 11 0)"

definition fast_part :: "EngineState \<Rightarrow> u8 list" where
  "fast_part eng =
     [of_nat (sizeof_TInfoPacket + 1), 0x01, eng_runlevel eng]
     @ le16 (to_i16 (f32_div (eng_angleDeg eng) 0.25))
     @ [clampU8 (f32_mul (eng_rashodLH eng) 16)]
     @ le16 (rpmToPeriod (eng_rpm eng))
     @ le16 (to_u16 (f32_div (eng_injTimeMs eng) (f32 0.004)))
     @ [eng_knockV eng,
        clampU8 (f32_div (f32_mul (eng_tpsPercent eng) 255) 100),
        clampU8 (f32_div (f32_mul (eng_dbwPercent eng) 255) 100),
        clampU8 (f32_div (eng_mapKpa eng) 2),
        clampU8 (f32_mul (eng_lambdaVal eng) 128),
        eng_cylNo eng, eng_transCorr eng, eng_speed eng,
        0, 0, 0, 0]
     @ le16 0"

text \<open>
  \<open>buildAndSend\<close>: the bytes written to the UART (the header, then \<open>txbuf\<close>) and the new
  \<open>slowPacketIndex\<close>; \<open>None\<close> when \<open>calcChecksum\<close> does not return.
\<close>

definition buildAndSend :: "EngineState \<Rightarrow> u8 \<Rightarrow> (u8 list \<times> u8) option" where
  "buildAndSend eng slowPacketIndex =
    (let txbuf = fast_part eng @ [slowPacketIndex] @ slow_part eng slowPacketIndex @ [0, 0]
     in case calcChecksum txbuf of
          None \<Rightarrow> None
        | Some crc \<Rightarrow>
            (let crcOffset = sizeof_TInfoPacket;
                 txbuf = txbuf[crcOffset := ucast (crc AND 0xFF)];
                 txbuf = txbuf[crcOffset + 1 := ucast (drop_bit 8 crc AND 0xFF)];
                 next = slowPacketIndex + 1;
                 next = (if next \<ge> TOTAL_SLOW_PACKETS then 0 else next)
             in Some (HEADER @ txbuf, next)))"

text \<open>
  The bytes of a stream frame between the length byte and the two checksum bytes: all
  but the four sync bytes, the version, the length byte and the checksum.
\<close>

definition payload_size :: "u8 list \<Rightarrow> nat" where
  "payload_size f = length f - 6 - 2"

text \<open>
  The 36 bytes of the packet in \<open>txbuf\<close> before the checksum is appended, and the slow
  index after a frame.
\<close>

definition packet :: "EngineState \<Rightarrow> u8 \<Rightarrow> u8 list" where
  "packet eng idx = fast_part eng @ [idx] @ slow_part eng idx"

definition next_index :: "u8 \<Rightarrow> u8" where
  "next_index idx = (if idx + 1 \<ge> TOTAL_SLOW_PACKETS then 0 else idx + 1)"

section \<open>Parser invariant, frames and samples\<close>

text \<open>
  What holds of the parser in every state it reaches from \<open>invent_ems_init\<close>: the buffer
  has its 64 bytes, and while a payload is accumulated the length byte is in range and
  \<open>rxptr\<close> has not passed it.
\<close>

definition parser_ok :: "parser \<Rightarrow> bool" where
  "parser_ok p \<longleftrightarrow>
     length (rxbuf p) = MAX_RX_BUF \<and> rxstate p \<le> 6 \<and>
     (rxstate p = 6 \<longrightarrow>
        MIN_PACKET_LEN \<le> rxbuf p ! 0 \<and> rxbuf p ! 0 \<le> MAX_PACKET_LEN \<and>
        1 \<le> rxptr p \<and> rxptr p \<le> rxbuf p ! 0)"

text \<open>The byte the states 1 to 4 test for.\<close>

definition expected_byte :: "u8 \<Rightarrow> u8" where
  "expected_byte st =
    (if st = 1 then HEADER_1 else if st = 2 then HEADER_2
     else if st = 3 then HEADER_3 else INVENT_EMS_PROTOCOL_VER)"

text \<open>
  A complete valid wire frame: the four sync bytes and the version, a length byte \<open>L\<close> in
  range, \<open>L\<close> more bytes, the last two of them the little-endian checksum of the bytes
  from the length byte up to the one before the checksum.
\<close>

definition sync_header :: "u8 list" where
  "sync_header = [HEADER_0, HEADER_1, HEADER_2, HEADER_3, INVENT_EMS_PROTOCOL_VER]"

definition valid_frame :: "u8 list \<Rightarrow> bool" where
  "valid_frame f \<longleftrightarrow>
     take 5 f = sync_header \<and> 6 \<le> length f \<and>
     MIN_PACKET_LEN \<le> f ! 5 \<and> f ! 5 \<le> MAX_PACKET_LEN \<and>
     length f = 6 + unat (f ! 5) \<and>
     read_u16 f (4 + unat (f ! 5)) = spec_checksum (take (unat (f ! 5) - 1) (drop 5 f))"

text \<open>The bytes \<open>bs\<close> written into \<open>buf\<close> from index \<open>k\<close> on.\<close>

definition stored :: "nat \<Rightarrow> u8 list \<Rightarrow> u8 list \<Rightarrow> u8 list" where
  "stored k bs buf = take k buf @ bs @ drop (k + length bs) buf"

text \<open>The parser after the last byte of a frame body, accepted or rejected.\<close>

definition frame_end :: "parser \<Rightarrow> parser" where
  "frame_end q =
    (if checksum (rxbuf q) = read_u16 (rxbuf q) (unat (rxbuf q ! 0) - 1) then parse_packet q
     else q\<lparr> ecu_data := (ecu_data q)\<lparr> error_count := error_count (ecu_data q) + 1 \<rparr> \<rparr>)
    \<lparr> rxstate := 0 \<rparr>"

text \<open>The fields of the ten slow variants, in the order of the record.\<close>

definition slow_fields where
  "slow_fields e =
    ((corr_angle e, lambda_target e, lambda_corr_fast e, lambda_corr_slow e,
      fuel_pressure_kpa e, dwell_ms e, voltage e, gear e, dbw_cmd e, lambda2 e),
     (flag_major e, flag_minor e, flag_notify e, flag_notify2 e, flag_protection e,
      idle_pos e, airflow e, boost_duty e, boost_target e),
     (egr_pos e, egr_target e, inj_duty e, inj_lag_time e, inj_end_angle e,
      fuel_press_coef e, air_charge_t e, inj_air_charge_corr e, speed2 e,
      back_pressure_kpa e),
     (ign_accel_corr e, vvt1_curr e, vvt1_target e, vvt2_curr e, vvt2_target e,
      vvt1b_curr e, vvt2b_curr e, tcs_corr e, pwm3d_target e, pwm3d_curr e),
     (trip_fuel_l e, trip_path_km e, curr_fuel_cons e, trip_fuel_cons e, fuel_composition e),
     (adc_tps e, adc_ct e, adc_iat e, adc_dbw1 e, adc_dbw2 e, adc_map e, adc_lambda e),
     adc_an e,
     (input_state e, output_state e, dbw_driver_status e, dbw_system_status e, gas_state e,
      at_temp e, at_state e, fuel_level e),
     (clt e, iat e, oil_temp e, fuel_temp e, egt1 e, egt2 e, oil_pressure e),
     pwm_duty e)"

text \<open>A frame with length byte 4, the bytes 1 and 2, and their checksum \<open>0x6098\<close>.\<close>

definition sample_frame :: "u8 list" where
  "sample_frame = [0x55, 0x00, 0xAA, 0x00, 0x54, 4, 1, 2, 0x98, 0x60]"

text \<open>A parser that has taken the length byte 4 and three more bytes of \<open>sample_frame\<close>.\<close>

definition sample_pending :: "u8 \<Rightarrow> parser" where
  "sample_pending fill =
     initial_parser\<lparr> rxstate := 6, rxbuf := [4, 1, 2, 0x98] @ replicate 60 fill, rxptr := 4 \<rparr>"

text \<open>
  A full-size frame (length byte 37) whose slow-variant index byte is 10, with the engine
  speed period 10000, a throttle byte of 255 and zero diagnostic bytes; the same frame
  with 7 in the first diagnostic byte (\<open>rxbuf[18]\<close>, stream offset 23); and the parser
  that has been fed the first frame except for its last byte.
\<close>

definition index_ten_body :: "u8 \<Rightarrow> u8 list" where
  "index_ten_body k =
    [37, 1, 2, 0x28, 0x00, 24, 0x10, 0x27, 0x71, 0x02, 10, 255, 128, 17, 128, 3, 0xFF, 60,
     k, 0, 0, 0, 0, 0, 10, 0, 0, 0, 0, 0, 0, 0, 0, 0, 0, 0]"

definition index_ten_frame :: "u8 list" where
  "index_ten_frame = [0x55, 0x00, 0xAA, 0x00, 0x54] @ index_ten_body 0 @ [0xB1, 0xEA]"

definition index_ten_frame_diag :: "u8 list" where
  "index_ten_frame_diag = [0x55, 0x00, 0xAA, 0x00, 0x54] @ index_ten_body 7 @ [0x26, 0x10]"

definition index_ten_pending :: parser where
  "index_ten_pending = feed_bytes (butlast index_ten_frame) initial_parser"

text \<open>The idle state with an ignition angle of 12.1875 degrees.\<close>

definition angle_state :: EngineState where
  "angle_state = initEngineState\<lparr> eng_angleDeg := 12.1875 \<rparr>"

section \<open>The ring buffers (\<open>bsp_can.c\<close>, \<open>pico_dashboard.cpp\<close>)\<close>

text \<open>
  The bus-frame ring: \<open>rx_buf\<close>, \<open>rx_head\<close> (written by the reception callback) and
  \<open>rx_tail\<close> (written by \<open>bsp_can_recv\<close>). \<open>rx_head + 1\<close> is computed in \<open>int\<close>, so it
  does not wrap at 256 before the \<open>%\<close>. The constant \<open>CAN2040_NOTIFY_RX\<close> and the message
  type belong to the can2040 library; the constant is a parameter of the callback and
  the message has the three fields the callback reads. The callback copies the
  identifier, the length code cut to 8 bits and the first 8 data bytes into the slot.
\<close>

definition ring_items :: "nat \<Rightarrow> 'a list \<Rightarrow> nat \<Rightarrow> nat \<Rightarrow> 'a list" where
  "ring_items cap buf head tail =
     map (\<lambda>i. buf ! ((tail + i) mod cap)) [0..<(head + cap - tail) mod cap]"

definition CAN_RX_BUF_SIZE :: nat where "CAN_RX_BUF_SIZE = 32"

record bsp_can_frame_t =
  can_id :: u32
  data :: "u8 list"
  dlc :: u8

record can2040_msg =
  msg_id :: u32
  msg_dlc :: u32
  msg_data :: "u8 list"

record can_rx =
  rx_buf :: "bsp_can_frame_t list"
  rx_head :: u8
  rx_tail :: u8

definition can_rx_cb :: "u32 \<Rightarrow> u32 \<Rightarrow> can2040_msg \<Rightarrow> can_rx \<Rightarrow> can_rx" where
  "can_rx_cb CAN2040_NOTIFY_RX notify msg r =
    (if notify = CAN2040_NOTIFY_RX then
       (let next = (of_nat ((unat (rx_head r) + 1) mod CAN_RX_BUF_SIZE) :: u8)
        in if next \<noteq> rx_tail r
           then r\<lparr> rx_buf := (rx_buf r)[unat (rx_head r) :=
                      \<lparr> can_id = msg_id msg, data = take 8 (msg_data msg),
                        dlc = ucast (msg_dlc msg) \<rparr>],
                  rx_head := next \<rparr>
           else r)
     else r)"

definition bsp_can_recv :: "can_rx \<Rightarrow> bsp_can_frame_t option \<times> can_rx" where
  "bsp_can_recv r =
    (if rx_tail r = rx_head r then (None, r)
     else (Some (rx_buf r ! unat (rx_tail r)),
           r\<lparr> rx_tail := of_nat ((unat (rx_tail r) + 1) mod CAN_RX_BUF_SIZE) \<rparr>))"

text \<open>
  The serial byte ring. \<open>uart_rx_push\<close> is the body of the loop of \<open>uart0_irq_handler\<close>,
  run once for each byte in the hardware FIFO; \<open>uart_rx_pop\<close> is one turn of the drain
  loop of \<open>main\<close>, and \<open>uart_drain\<close> the whole loop with the head read once before it,
  collecting the bytes it hands to \<open>invent_ems_feed_byte\<close>.
\<close>

definition UART_RX_BUF_SIZE :: nat where "UART_RX_BUF_SIZE = 256"

record uart_rx =
  uart_rx_buf :: "u8 list"
  uart_rx_head :: u16
  uart_rx_tail :: u16

definition uart_rx_push :: "u8 \<Rightarrow> uart_rx \<Rightarrow> uart_rx" where
  "uart_rx_push ch r =
    (let next = (of_nat ((unat (uart_rx_head r) + 1) mod UART_RX_BUF_SIZE) :: u16)
     in if next \<noteq> uart_rx_tail r
        then r\<lparr> uart_rx_buf := (uart_rx_buf r)[unat (uart_rx_head r) := ch], uart_rx_head := next \<rparr>
        else r)"

definition uart0_irq_handler :: "u8 list \<Rightarrow> uart_rx \<Rightarrow> uart_rx" where
  "uart0_irq_handler fifo r = fold uart_rx_push fifo r"

definition uart_rx_pop :: "uart_rx \<Rightarrow> u8 option \<times> uart_rx" where
  "uart_rx_pop r =
    (if uart_rx_tail r \<noteq> uart_rx_head r
     then (Some (uart_rx_buf r ! unat (uart_rx_tail r)),
           r\<lparr> uart_rx_tail := of_nat ((unat (uart_rx_tail r) + 1) mod UART_RX_BUF_SIZE) \<rparr>)
     else (None, r))"

text \<open>Any sequence of pushes and pops, each run as a whole.\<close>

datatype 'a ring_op = Push 'a | Pop

fun can_run :: "u32 \<Rightarrow> can2040_msg ring_op list \<Rightarrow> can_rx \<Rightarrow> can_rx" where
  "can_run N [] r = r"
| "can_run N (Push m # ops) r = can_run N ops (can_rx_cb N N m r)"
| "can_run N (Pop # ops) r = can_run N ops (snd (bsp_can_recv r))"

fun uart_run :: "u8 ring_op list \<Rightarrow> uart_rx \<Rightarrow> uart_rx" where
  "uart_run [] r = r"
| "uart_run (Push ch # ops) r = uart_run ops (uart_rx_push ch r)"
| "uart_run (Pop # ops) r = uart_run ops (snd (uart_rx_pop r))"

definition can_start :: can_rx where
  "can_start = \<lparr> rx_buf = replicate CAN_RX_BUF_SIZE \<lparr> can_id = 0, data = replicate 8 0, dlc = 0 \<rparr>,
                 rx_head = 0, rx_tail = 0 \<rparr>"

definition uart_start :: uart_rx where
  "uart_start = \<lparr> uart_rx_buf = replicate UART_RX_BUF_SIZE 0, uart_rx_head = 0, uart_rx_tail = 0 \<rparr>"

text \<open>
  Both indices below the capacity; the queued items, oldest first; the buffer full.
\<close>

definition can_ok :: "can_rx \<Rightarrow> bool" where
  "can_ok r \<longleftrightarrow> length (rx_buf r) = CAN_RX_BUF_SIZE \<and> unat (rx_head r) < CAN_RX_BUF_SIZE
               \<and> unat (rx_tail r) < CAN_RX_BUF_SIZE"

definition uart_ok :: "uart_rx \<Rightarrow> bool" where
  "uart_ok r \<longleftrightarrow> length (uart_rx_buf r) = UART_RX_BUF_SIZE
               \<and> unat (uart_rx_head r) < UART_RX_BUF_SIZE
               \<and> unat (uart_rx_tail r) < UART_RX_BUF_SIZE"

definition can_items :: "can_rx \<Rightarrow> bsp_can_frame_t list" where
  "can_items r = ring_items CAN_RX_BUF_SIZE (rx_buf r) (unat (rx_head r)) (unat (rx_tail r))"

definition uart_items :: "uart_rx \<Rightarrow> u8 list" where
  "uart_items r =
     ring_items UART_RX_BUF_SIZE (uart_rx_buf r) (unat (uart_rx_head r)) (unat (uart_rx_tail r))"

definition can_full :: "can_rx \<Rightarrow> bool" where
  "can_full r \<longleftrightarrow> (unat (rx_head r) + 1) mod CAN_RX_BUF_SIZE = unat (rx_tail r)"

definition uart_full :: "uart_rx \<Rightarrow> bool" where
  "uart_full r \<longleftrightarrow> (unat (uart_rx_head r) + 1) mod UART_RX_BUF_SIZE = unat (uart_rx_tail r)"

partial_function (option) uart_drain :: "u16 \<Rightarrow> uart_rx \<Rightarrow> u8 list \<Rightarrow> (u8 list \<times> uart_rx) option" where
  "uart_drain head r fed =
    (if uart_rx_tail r \<noteq> head
     then uart_drain head
            (r\<lparr> uart_rx_tail := of_nat ((unat (uart_rx_tail r) + 1) mod UART_RX_BUF_SIZE) \<rparr>)
            (fed @ [uart_rx_buf r ! unat (uart_rx_tail r)])
     else Some (fed, r))"

text \<open>A received bus message, for the examples.\<close>

definition sample_msg :: can2040_msg where
  "sample_msg = \<lparr> msg_id = 0x300, msg_dlc = 8, msg_data = [1, 2, 3, 4, 5, 6, 7, 8] \<rparr>"

section \<open>The float fields\<close>

text \<open>
  The \<open>float\<close> fields each decoder writes: \<open>parse_fast\<close>, \<open>parse_slow\<close> for each variant,
  and the bus-frame decoder for each identifier. \<open>float_fields\<close> lists every \<open>float\<close> field
  of the record: the ten fast ones, those of the slow variants and the six PWM duties.
\<close>

definition fast_floats :: "invent_ems_data_t \<Rightarrow> cfloat list" where
  "fast_floats e =
     [ign_angle e, fuel_flow e, rpm e, inj_time_ms e, knock_v e, tps e, dbw_pos e, map_kpa e,
      lambda e, speed e]"

definition slow_floats :: "u8 \<Rightarrow> invent_ems_data_t \<Rightarrow> cfloat list" where
  "slow_floats ident e =
    (if ident = 0 then
       [lambda_target e, fuel_pressure_kpa e, dwell_ms e, voltage e, dbw_cmd e, lambda2 e]
     else if ident = 1 then [idle_pos e]
     else if ident = 2 then [back_pressure_kpa e]
     else if ident = 3 then [pwm3d_target e, pwm3d_curr e]
     else if ident = 4 then
       [trip_fuel_l e, trip_path_km e, curr_fuel_cons e, trip_fuel_cons e, fuel_composition e]
     else if ident = 8 then
       [clt e, iat e, oil_temp e, fuel_temp e, egt1 e, egt2 e, oil_pressure e]
     else if ident = 9 then pwm_duty e
     else [])"

definition can_floats :: "u32 \<Rightarrow> invent_ems_data_t \<Rightarrow> cfloat list" where
  "can_floats ident e =
    (if ident = 0x300 then [rpm e, tps e, map_kpa e, iat e]
     else if ident = 0x302 then [ign_angle e, dwell_ms e, inj_time_ms e]
     else if ident = 0x304 then [oil_temp e, oil_pressure e, clt e, voltage e]
     else if ident = 0x305 then [speed e]
     else if ident = 0x306 then [knock_v e, fuel_pressure_kpa e, fuel_temp e]
     else if ident = 0x307 then [egt1 e, egt2 e]
     else if ident = 0x340 then [speed e]
     else [])"

definition float_fields :: "invent_ems_data_t \<Rightarrow> cfloat list" where
  "float_fields e =
     fast_floats e @ slow_floats 0 e @ slow_floats 1 e @ slow_floats 2 e @ slow_floats 3 e
     @ slow_floats 4 e @ slow_floats 8 e @ slow_floats 9 e"

section \<open>Single precision: evaluation\<close>

lemma doublings_numeral [simp]:
  "doublings (numeral k) a = (if 1 \<le> a then 0 else Suc (doublings (pred_numeral k) (2 * a)))"
  by (simp add: numeral_eq_Suc)

lemma halvings_numeral [simp]:
  "halvings (numeral k) a = (if a < 2 then 0 else Suc (halvings (pred_numeral k) (a / 2)))"
  by (simp add: numeral_eq_Suc)

lemmas f32_eval = f32_def f32_add_def f32_mul_def f32_div_def ulp_def round_even_def Let_def

text \<open>
  Two conversions where single precision shows: \<open>0.5f / 0.004f\<close> is just below 125 and
  is cut to 124, and \<open>0.49999997f + 0.5f\<close> rounds to 1.
\<close>

lemma single_precision_casts:
  "to_u16 (f32_div 0.5 (f32 0.004)) = 124"
  "clampU8 (1 / 2 - 1 / 2 ^ 25) = 1"
  by (simp_all add: f32_eval to_u16_def clampU8_def c_trunc_def)

section \<open>Checksum: the two implementations and the specification\<close>

lemma crc_step_spec: "crc_step crc b = spec_crc_byte b crc"
proof -
  have m: "(0xFF :: u16) = mask 8" by (simp add: mask_eq_exp_minus_1)
  have lo: "(ucast (crc AND 0xFF) :: u8) = ucast crc"
    unfolding m by (rule bit_word_eqI) (auto simp: bit_simps)
  have hi: "drop_bit 8 crc AND 0xFF = drop_bit 8 crc"
    unfolding m by (rule bit_word_eqI) (auto simp: bit_simps dest: bit_imp_le_length)
  show ?thesis
    unfolding crc_step_def spec_crc_byte_def Let_def lo hi
    by (simp only: xor.assoc)
qed

lemma crc_loop_fold:
  "Suc len \<le> length buf \<Longrightarrow> i \<le> Suc len \<Longrightarrow>
   crc_loop buf len i crc = fold spec_crc_byte (take (Suc len - i) (drop i buf)) crc"
proof (induction buf len i crc rule: crc_loop.induct)
  case (1 buf len i crc)
  show ?case
  proof (cases "i \<le> len")
    case True
    then have lt: "i < length buf" using "1.prems" by simp
    have sl: "take (Suc len - i) (drop i buf) = buf ! i # take (Suc len - Suc i) (drop (Suc i) buf)"
      using True lt by (simp add: Suc_diff_le Cons_nth_drop_Suc [symmetric])
    have "crc_loop buf len i crc = crc_loop buf len (Suc i) (crc_step crc (buf ! i))"
      using True by simp
    also have "\<dots> = fold spec_crc_byte (take (Suc len - Suc i) (drop (Suc i) buf))
                      (crc_step crc (buf ! i))"
      using "1.IH" [OF True] "1.prems" True by simp
    finally show ?thesis
      by (simp add: sl crc_step_spec)
  next
    case False
    then have "i = Suc len" using "1.prems" by simp
    then show ?thesis by simp
  qed
qed

lemma calc_loop_total:
  "unat len < 255 \<Longrightarrow> unat i \<le> Suc (unat len) \<Longrightarrow>
   calc_loop buffer len i crc = Some (crc_loop buffer (unat len) (unat i) crc)"
proof (induction "Suc (unat len) - unat i" arbitrary: i crc)
  case 0
  then have "unat i = Suc (unat len)" by simp
  then have "\<not> i \<le> len" by (simp add: word_le_nat_alt)
  moreover have "\<not> unat i \<le> unat len" using \<open>unat i = Suc (unat len)\<close> by simp
  ultimately show ?case
    by (subst calc_loop.simps) simp
next
  case (Suc n)
  then have le: "unat i \<le> unat len" by simp
  then have wle: "i \<le> len" by (simp add: word_le_nat_alt)
  have "unat i < 255" using le Suc.prems(1) by simp
  then have un: "unat (i + 1) = Suc (unat i)"
    by (simp add: unat_word_ariths)
  have "calc_loop buffer len (i + 1) (crc_step crc (buffer ! unat i)) =
        Some (crc_loop buffer (unat len) (unat (i + 1)) (crc_step crc (buffer ! unat i)))"
    using Suc.hyps(2) Suc.prems(1) le un by (intro Suc.hyps(1)) simp_all
  then show ?case
    using wle le un by (subst calc_loop.simps) simp
qed

lemma crc_loop_is_spec:
  assumes "4 \<le> unat (buf ! 0)" and "unat (buf ! 0) \<le> 48" and "unat (buf ! 0) - 1 \<le> length buf"
  shows "unat (buf ! 0 - 2) = unat (buf ! 0) - 2"
    and "crc_loop buf (unat (buf ! 0 - 2)) 0 0xFFFF = spec_checksum (take (unat (buf ! 0) - 1) buf)"
proof -
  let ?L = "buf ! 0"
  show len: "unat (?L - 2) = unat ?L - 2"
    using assms(1) by (simp add: unat_sub word_le_nat_alt)
  have suc: "Suc (unat ?L - 2) = unat ?L - 1" using assms(1) by simp
  have inb: "Suc (unat (?L - 2)) \<le> length buf"
    using assms(3) len suc by simp
  show "crc_loop buf (unat (?L - 2)) 0 0xFFFF = spec_checksum (take (unat ?L - 1) buf)"
    using crc_loop_fold [OF inb, of 0 "0xFFFF"] len suc by (simp add: spec_checksum_def)
qed

lemma checksum_is_spec:
  assumes "4 \<le> unat (buf ! 0)" and "unat (buf ! 0) \<le> 48" and "unat (buf ! 0) - 1 \<le> length buf"
  shows "checksum buf = spec_checksum (take (unat (buf ! 0) - 1) buf)"
proof -
  have "\<not> unat (buf ! 0 - 2) \<ge> MAX_RX_BUF - 2"
    using crc_loop_is_spec(1) [OF assms] assms(2) by (simp add: MAX_RX_BUF_def)
  then show ?thesis
    using crc_loop_is_spec(2) [OF assms] by (simp add: checksum_def Let_def)
qed

lemma calcChecksum_is_spec:
  assumes "4 \<le> unat (buf ! 0)" and "unat (buf ! 0) \<le> 48" and "unat (buf ! 0) - 1 \<le> length buf"
  shows "calcChecksum buf = Some (spec_checksum (take (unat (buf ! 0) - 1) buf))"
proof -
  have "unat (buf ! 0 - 2) < 255"
    using crc_loop_is_spec(1) [OF assms] assms(2) by simp
  then have "calcChecksum buf = Some (crc_loop buf (unat (buf ! 0 - 2)) 0 0xFFFF)"
    using calc_loop_total [of "buf ! 0 - 2" 0 buf "0xFFFF"] by (simp add: calcChecksum_def)
  then show ?thesis
    using crc_loop_is_spec(2) [OF assms] by simp
qed

text \<open>
  C1. For every buffer whose length byte \<open>L\<close> lies in \<open>[4,48]\<close> (and that holds the bytes
  \<open>0 .. L-2\<close>), the decoder's \<open>checksum\<close> and the emulator's \<open>calcChecksum\<close> both return
  the value the specification's algorithm computes over \<open>bytes[0 .. L-2]\<close>; the emulator's
  loop returns, and the two agree.
\<close>

theorem checksum_agree:
  assumes "4 \<le> buf ! 0" and "buf ! 0 \<le> 48" and "unat (buf ! 0) - 1 \<le> length buf"
  shows "checksum buf = spec_checksum (take (unat (buf ! 0) - 1) buf)
       \<and> calcChecksum buf = Some (spec_checksum (take (unat (buf ! 0) - 1) buf))"
proof -
  have L4: "4 \<le> unat (buf ! 0)" and L48: "unat (buf ! 0) \<le> 48"
    using assms(1,2) by (simp_all add: word_le_nat_alt)
  show ?thesis
    using checksum_is_spec [OF L4 L48 assms(3)] calcChecksum_is_spec [OF L4 L48 assms(3)]
    by simp
qed

theorem checksum_agree_witness:
  "(4 :: u8) \<le> [4, 1, 2, 0, 0] ! 0 \<and> [4, 1, 2, 0, 0 :: u8] ! 0 \<le> 48
   \<and> unat ([4, 1, 2, 0, 0 :: u8] ! 0) - 1 \<le> length [4, 1, 2, 0, 0 :: u8]
   \<and> checksum [4, 1, 2, 0, 0] = spec_checksum [4, 1, 2]
   \<and> calcChecksum [4, 1, 2, 0, 0] = Some (spec_checksum [4, 1, 2])"
  using checksum_agree [of "[4, 1, 2, 0, 0]"] by simp

section \<open>The state machine\<close>

lemma feed_byte_unfold:
  "invent_ems_feed_byte byte p =
    (if snd (feed_switch byte p) then invent_ems_feed_byte byte (fst (feed_switch byte p))
     else fst (feed_switch byte p))"
  by (subst invent_ems_feed_byte.simps) (simp split: prod.split)

lemma feed_switch_state0:
  "rxstate p = 0 \<Longrightarrow>
   feed_switch byte p = (if byte = HEADER_0 then p\<lparr> rxstate := 1 \<rparr> else p, False)"
  by (simp add: feed_switch_def)

lemma feed_byte_state0:
  "rxstate p = 0 \<Longrightarrow>
   invent_ems_feed_byte byte p = (if byte = HEADER_0 then p\<lparr> rxstate := 1 \<rparr> else p)"
  by (subst feed_byte_unfold) (simp add: feed_switch_state0)

text \<open>
  C5. A byte that fails the test of a sync state 1 to 3 or of the version state resets
  the state machine to state 0 and is looked at again, in the same call, as a
  possible first sync byte: the call does what it does from state 0, and so ends in
  state 1 when the byte is \<open>0x55\<close> and in state 0 otherwise, with nothing else changed.
\<close>

theorem resync_same_byte:
  assumes "rxstate p \<in> {1, 2, 3, 4}" and "byte \<noteq> expected_byte (rxstate p)"
  shows "invent_ems_feed_byte byte p = invent_ems_feed_byte byte (p\<lparr> rxstate := 0 \<rparr>)
       \<and> invent_ems_feed_byte byte p = p\<lparr> rxstate := (if byte = HEADER_0 then 1 else 0) \<rparr>"
proof -
  have sw: "feed_switch byte p = (p\<lparr> rxstate := 0 \<rparr>, True)"
    using assms by (auto simp: feed_switch_def expected_byte_def)
  have a: "invent_ems_feed_byte byte p = invent_ems_feed_byte byte (p\<lparr> rxstate := 0 \<rparr>)"
    by (subst feed_byte_unfold) (simp add: sw)
  have b: "invent_ems_feed_byte byte (p\<lparr> rxstate := 0 \<rparr>) =
           p\<lparr> rxstate := (if byte = HEADER_0 then 1 else 0) \<rparr>"
    using feed_byte_state0 [of "p\<lparr> rxstate := 0 \<rparr>" byte] by simp
  show ?thesis using a b by simp
qed

text \<open>
  C7. A bus frame whose identifier is not one of the seven known ones is reported as
  not recognised (\<open>False\<close>), and the whole state, telemetry record and new-data flag
  included, is returned as it was, whatever the payload.
\<close>

theorem unknown_can_id:
  assumes "ident \<notin> {0x300, 0x302, 0x304, 0x305, 0x306, 0x307, 0x340}"
  shows "invent_ems_feed_can_frame ident payload len p = (False, p)"
  using assms by (simp add: invent_ems_feed_can_frame_def)

lemma feed_byte_state6:
  "rxstate p = 6 \<Longrightarrow> invent_ems_feed_byte byte p = accumulate byte p"
  by (subst feed_byte_unfold) (simp add: feed_switch_def)

lemma parser_ok_state6:
  assumes "parser_ok p" and "rxstate p = 6"
  shows "4 \<le> unat (rxbuf p ! 0)" and "unat (rxbuf p ! 0) \<le> 48"
    and "1 \<le> unat (rxptr p)" and "unat (rxptr p) \<le> unat (rxbuf p ! 0)"
    and "length (rxbuf p) = 64"
  using assms
  by (simp_all add: parser_ok_def MIN_PACKET_LEN_def MAX_PACKET_LEN_def MAX_RX_BUF_def
      word_le_nat_alt)

lemma accumulate_more:
  assumes ok: "parser_ok p" and st: "rxstate p = 6" and lt: "rxptr p < rxbuf p ! 0"
  shows "accumulate byte p =
         p\<lparr> rxbuf := (rxbuf p)[unat (rxptr p) := byte], rxptr := rxptr p + 1 \<rparr>"
proof -
  note b = parser_ok_state6 [OF ok st]
  have ltn: "unat (rxptr p) < unat (rxbuf p ! 0)" using lt by (simp add: word_less_nat_alt)
  have un: "unat (rxptr p + 1) = Suc (unat (rxptr p))"
    using ltn b(2) by (simp add: unat_word_ariths)
  have z: "(rxbuf p)[unat (rxptr p) := byte] ! 0 = rxbuf p ! 0"
    using b(3) by simp
  have "\<not> rxptr p + 1 > rxbuf p ! 0"
    using ltn un by (simp add: word_less_nat_alt)
  then show ?thesis
    using b(2,4,5) z by (simp add: accumulate_def Let_def MAX_RX_BUF_def)
qed

lemma accumulate_last:
  assumes ok: "parser_ok p" and st: "rxstate p = 6" and eq: "rxptr p = rxbuf p ! 0"
  shows "accumulate byte p =
    (let q = p\<lparr> rxbuf := (rxbuf p)[unat (rxptr p) := byte], rxptr := rxptr p + 1 \<rparr>
     in (if checksum (rxbuf q) = read_u16 (rxbuf q) (unat (rxptr p) - 1) then parse_packet q
         else q\<lparr> ecu_data := (ecu_data q)\<lparr> error_count := error_count (ecu_data q) + 1 \<rparr> \<rparr>)
        \<lparr> rxstate := 0 \<rparr>)"
proof -
  note b = parser_ok_state6 [OF ok st]
  have un: "unat (rxptr p + 1) = Suc (unat (rxptr p))"
    using b(2,4) by (simp add: unat_word_ariths)
  have z: "(rxbuf p)[unat (rxptr p) := byte] ! 0 = rxbuf p ! 0"
    using b(3) by simp
  have gt: "rxptr p + 1 > rxbuf p ! 0"
    using un eq by (simp add: word_less_nat_alt)
  have i1: "unat (rxptr p + 1) - 2 = unat (rxptr p) - 1"
    and i2: "unat (rxptr p + 1) - 1 = unat (rxptr p) - 1 + 1"
    using un b(3) by simp_all
  show ?thesis
    using b(2,4,5) z gt
    by (simp add: accumulate_def Let_def MAX_RX_BUF_def read_u16_def i1 i2 del: One_nat_def)
qed

text \<open>
  C4. When the byte that completes a frame arrives and the trailing little-endian
  checksum differs from the computed one, \<open>error_count\<close> goes up by exactly one, every
  other field of the telemetry record and the new-data flag stay as they were, and the
  state machine is back in state 0.
\<close>

theorem checksum_mismatch:
  assumes "parser_ok p" and "rxstate p = 6" and "rxptr p = rxbuf p ! 0"
    and "checksum ((rxbuf p)[unat (rxptr p) := byte])
         \<noteq> read_u16 ((rxbuf p)[unat (rxptr p) := byte]) (unat (rxptr p) - 1)"
  shows "ecu_data (invent_ems_feed_byte byte p)
           = (ecu_data p)\<lparr> error_count := error_count (ecu_data p) + 1 \<rparr>
       \<and> new_data_flag (invent_ems_feed_byte byte p) = new_data_flag p
       \<and> rxstate (invent_ems_feed_byte byte p) = 0"
  using assms(4)
  by (simp add: feed_byte_state6 [OF assms(2)] accumulate_last [OF assms(1,2,3)] Let_def)

lemma u8_le6_cases:
  fixes x :: u8
  assumes "x \<le> 6"
  shows "x = 0 \<or> x = 1 \<or> x = 2 \<or> x = 3 \<or> x = 4 \<or> x = 5 \<or> x = 6"
proof -
  have "unat x \<le> 6" using assms by (simp add: word_le_nat_alt)
  then have "unat x = 0 \<or> unat x = 1 \<or> unat x = 2 \<or> unat x = 3 \<or> unat x = 4
           \<or> unat x = 5 \<or> unat x = 6" by arith
  then show ?thesis
    by (simp add: word_unat_eq_iff)
qed

lemma parser_ok_initial: "parser_ok initial_parser"
  by (simp add: parser_ok_def initial_parser_def invent_ems_init_def power_on_def MAX_RX_BUF_def)

lemma parse_packet_frame [simp]:
  "rxbuf (parse_packet q) = rxbuf q" "rxptr (parse_packet q) = rxptr q"
  "rxstate (parse_packet q) = rxstate q"
  by (simp_all add: parse_packet_def Let_def)

lemma parser_ok_accumulate:
  assumes ok: "parser_ok p" and st: "rxstate p = 6"
  shows "parser_ok (accumulate byte p)"
proof (cases "rxptr p < rxbuf p ! 0")
  case True
  note b = parser_ok_state6 [OF ok st]
  have ltn: "unat (rxptr p) < unat (rxbuf p ! 0)" using True by (simp add: word_less_nat_alt)
  have un: "unat (rxptr p + 1) = Suc (unat (rxptr p))"
    using ltn b(2) by (simp add: unat_word_ariths)
  have z: "(rxbuf p)[unat (rxptr p) := byte] ! 0 = rxbuf p ! 0"
    using b(3) by simp
  show ?thesis
    using ok st ltn un z
    by (simp add: accumulate_more [OF ok st True] parser_ok_def word_le_nat_alt)
next
  case False
  then have eq: "rxptr p = rxbuf p ! 0"
    using parser_ok_state6(4) [OF ok st] by (simp add: word_less_nat_alt word_unat_eq_iff)
  show ?thesis
    using ok by (simp add: accumulate_last [OF ok st eq] Let_def parser_ok_def)
qed

lemma parser_ok_feed_byte:
  assumes ok: "parser_ok p"
  shows "parser_ok (invent_ems_feed_byte byte p)"
proof -
  have r0: "parser_ok (p\<lparr> rxstate := 0 \<rparr>)" "parser_ok (p\<lparr> rxstate := 1 \<rparr>)"
    using ok by (simp_all add: parser_ok_def)
  have s0: "parser_ok (invent_ems_feed_byte byte (p\<lparr> rxstate := 0 \<rparr>))"
    using r0 feed_byte_state0 [of "p\<lparr> rxstate := 0 \<rparr>" byte] by simp
  have "rxstate p \<le> 6" using ok by (simp add: parser_ok_def)
  then consider "rxstate p = 0" | "rxstate p \<in> {1, 2, 3, 4}" | "rxstate p = 5" | "rxstate p = 6"
    using u8_le6_cases by fastforce
  then show ?thesis
  proof cases
    case 1
    then show ?thesis using ok r0 by (simp add: feed_byte_state0)
  next
    case 2
    show ?thesis
    proof (cases "byte = expected_byte (rxstate p)")
      case True
      with 2 have "feed_switch byte p = (p\<lparr> rxstate := rxstate p + 1 \<rparr>, False)"
        by (auto simp: feed_switch_def expected_byte_def)
      then have "invent_ems_feed_byte byte p = p\<lparr> rxstate := rxstate p + 1 \<rparr>"
        by (subst feed_byte_unfold) simp
      then show ?thesis using ok 2 by (auto simp: parser_ok_def)
    next
      case False
      with 2 have "feed_switch byte p = (p\<lparr> rxstate := 0 \<rparr>, True)"
        by (auto simp: feed_switch_def expected_byte_def)
      then have "invent_ems_feed_byte byte p = invent_ems_feed_byte byte (p\<lparr> rxstate := 0 \<rparr>)"
        by (subst feed_byte_unfold) simp
      then show ?thesis using s0 by simp
    qed
  next
    case 3
    then have "invent_ems_feed_byte byte p =
      (if byte \<ge> MIN_PACKET_LEN \<and> byte \<le> MAX_PACKET_LEN
       then p\<lparr> rxbuf := (rxbuf p)[0 := byte], rxptr := 1, rxstate := 6 \<rparr>
       else p\<lparr> rxstate := 0 \<rparr>)"
      by (subst feed_byte_unfold) (simp add: feed_switch_def)
    moreover have "MIN_PACKET_LEN \<le> byte \<Longrightarrow> 1 \<le> byte"
      by (simp add: MIN_PACKET_LEN_def word_le_nat_alt)
    ultimately show ?thesis
      using ok by (auto simp: parser_ok_def MAX_RX_BUF_def)
  next
    case 4
    then show ?thesis
      using parser_ok_accumulate [OF ok 4] by (simp add: feed_byte_state6)
  qed
qed

lemma parser_ok_feed_bytes: "parser_ok p \<Longrightarrow> parser_ok (feed_bytes bs p)"
  by (induction bs arbitrary: p) (simp_all add: parser_ok_feed_byte)

lemma stored_Nil: "stored k [] buf = buf"
  by (simp add: stored_def)

lemma stored_Cons:
  "k < length buf \<Longrightarrow> stored k (b # bs) buf = stored (Suc k) bs (buf[k := b])"
  by (simp add: stored_def take_Suc_conv_app_nth upd_conv_take_nth_drop add.commute)

lemma stored_snoc:
  "k + length bs < length buf \<Longrightarrow>
   (stored k bs buf)[k + length bs := b] = stored k (bs @ [b]) buf"
  by (simp add: stored_def list_update_append upd_conv_take_nth_drop min_def drop_Suc
      Cons_nth_drop_Suc [symmetric] flip: drop_drop)

lemma length_stored: "k + length bs \<le> length buf \<Longrightarrow> length (stored k bs buf) = length buf"
  by (simp add: stored_def)

lemma stored_nth0: "0 < k \<Longrightarrow> k \<le> length buf \<Longrightarrow> stored k bs buf ! 0 = buf ! 0"
  by (simp add: stored_def nth_append)

lemma feed_sync:
  assumes "rxstate p \<le> 4"
  shows "feed_bytes sync_header p = p\<lparr> rxstate := 5 \<rparr>"
    and "frames_decoded sync_header p = 0"
proof -
  have c: "rxstate p = 0 \<or> rxstate p \<in> {1, 2, 3, 4}"
    using u8_le6_cases [of "rxstate p"] assms by (auto simp: word_le_nat_alt)
  have ne: "HEADER_0 \<noteq> expected_byte (rxstate p)"
    by (simp add: expected_byte_def HEADER_0_def HEADER_1_def HEADER_2_def HEADER_3_def
        INVENT_EMS_PROTOCOL_VER_def)
  have a: "invent_ems_feed_byte HEADER_0 p = p\<lparr> rxstate := 1 \<rparr>"
    using c
  proof
    assume "rxstate p = 0" then show ?thesis by (simp add: feed_byte_state0)
  next
    assume "rxstate p \<in> {1, 2, 3, 4}"
    then have "feed_switch HEADER_0 p = (p\<lparr> rxstate := 0 \<rparr>, True)"
      using ne by (auto simp: feed_switch_def expected_byte_def)
    then have "invent_ems_feed_byte HEADER_0 p = invent_ems_feed_byte HEADER_0 (p\<lparr> rxstate := 0 \<rparr>)"
      by (subst feed_byte_unfold) simp
    then show ?thesis
      using feed_byte_state0 [of "p\<lparr> rxstate := 0 \<rparr>" HEADER_0] by simp
  qed
  have b: "invent_ems_feed_byte HEADER_1 (p\<lparr> rxstate := 1 \<rparr>) = p\<lparr> rxstate := 2 \<rparr>"
    by (subst feed_byte_unfold) (simp add: feed_switch_def)
  have c: "invent_ems_feed_byte HEADER_2 (p\<lparr> rxstate := 2 \<rparr>) = p\<lparr> rxstate := 3 \<rparr>"
    by (subst feed_byte_unfold) (simp add: feed_switch_def)
  have d: "invent_ems_feed_byte HEADER_3 (p\<lparr> rxstate := 3 \<rparr>) = p\<lparr> rxstate := 4 \<rparr>"
    by (subst feed_byte_unfold) (simp add: feed_switch_def)
  have e: "invent_ems_feed_byte INVENT_EMS_PROTOCOL_VER (p\<lparr> rxstate := 4 \<rparr>) = p\<lparr> rxstate := 5 \<rparr>"
    by (subst feed_byte_unfold) (simp add: feed_switch_def)
  show "feed_bytes sync_header p = p\<lparr> rxstate := 5 \<rparr>"
    by (simp add: sync_header_def a b c d e)
  show "frames_decoded sync_header p = 0"
    by (simp add: sync_header_def a b c d e)
qed

lemma feed_length:
  assumes "rxstate p = 5" and "MIN_PACKET_LEN \<le> L" and "L \<le> MAX_PACKET_LEN"
  shows "invent_ems_feed_byte L p = p\<lparr> rxbuf := (rxbuf p)[0 := L], rxptr := 1, rxstate := 6 \<rparr>"
  using assms by (subst feed_byte_unfold) (simp add: feed_switch_def)

lemma feed_payload:
  assumes "parser_ok p" and "rxstate p = 6"
    and "unat (rxptr p) + length bs \<le> unat (rxbuf p ! 0)"
  shows "feed_bytes bs p =
           p\<lparr> rxbuf := stored (unat (rxptr p)) bs (rxbuf p),
              rxptr := rxptr p + of_nat (length bs) \<rparr>
       \<and> frames_decoded bs p = 0"
  using assms
proof (induction bs arbitrary: p)
  case Nil
  then show ?case by (simp add: stored_Nil)
next
  case (Cons b bs)
  note bd = parser_ok_state6 [OF Cons.prems(1,2)]
  have lt: "rxptr p < rxbuf p ! 0"
    using Cons.prems(3) by (simp add: word_less_nat_alt)
  let ?q = "p\<lparr> rxbuf := (rxbuf p)[unat (rxptr p) := b], rxptr := rxptr p + 1 \<rparr>"
  have step: "invent_ems_feed_byte b p = ?q"
    by (simp add: feed_byte_state6 [OF Cons.prems(2)] accumulate_more [OF Cons.prems(1,2) lt])
  have okq: "parser_ok ?q"
    using parser_ok_feed_byte [OF Cons.prems(1), of b] step by simp
  have stq: "rxstate ?q = 6" using Cons.prems(2) by simp
  have un: "unat (rxptr p + 1) = Suc (unat (rxptr p))"
    using Cons.prems(3) bd(2) by (simp add: unat_word_ariths)
  have z: "(rxbuf p)[unat (rxptr p) := b] ! 0 = rxbuf p ! 0"
    using bd(3) by simp
  have pre: "unat (rxptr ?q) + length bs \<le> unat (rxbuf ?q ! 0)"
    using Cons.prems(3) un z by simp
  have inb: "unat (rxptr p) < length (rxbuf p)"
    using Cons.prems(3) bd(2,5) by simp
  from Cons.IH [OF okq stq pre]
  have ih: "feed_bytes bs ?q =
              ?q\<lparr> rxbuf := stored (unat (rxptr ?q)) bs (rxbuf ?q),
                   rxptr := rxptr ?q + of_nat (length bs) \<rparr>"
    and ih0: "frames_decoded bs ?q = 0" by simp_all
  have "feed_bytes (b # bs) p =
          p\<lparr> rxbuf := stored (unat (rxptr p)) (b # bs) (rxbuf p),
             rxptr := rxptr p + of_nat (length (b # bs)) \<rparr>"
    using ih by (simp add: step un stored_Cons [OF inb] add.assoc)
  moreover have "frames_decoded (b # bs) p = 0"
    using ih0 by (simp add: step)
  ultimately show ?case by simp
qed

lemma feed_bytes_append: "feed_bytes (xs @ ys) p = feed_bytes ys (feed_bytes xs p)"
  by (induction xs arbitrary: p) simp_all

lemma frames_decoded_append:
  "frames_decoded (xs @ ys) p = frames_decoded xs p + frames_decoded ys (feed_bytes xs p)"
  by (induction xs arbitrary: p) simp_all

lemma feed_body:
  assumes ok: "parser_ok p" and st: "rxstate p = 5"
    and L4: "4 \<le> unat L" and L48: "unat L \<le> 48" and len: "length mid = unat L - 1"
  shows "feed_bytes (L # mid) p =
           p\<lparr> rxstate := 6, rxbuf := stored 0 (L # mid) (rxbuf p), rxptr := L \<rparr>"
    and "frames_decoded (L # mid) p = 0"
    and "feed_bytes (L # mid @ [hi]) p =
           frame_end (p\<lparr> rxstate := 6, rxbuf := stored 0 (L # mid @ [hi]) (rxbuf p),
                         rxptr := L + 1 \<rparr>)"
proof -
  have wL: "MIN_PACKET_LEN \<le> L" "L \<le> MAX_PACKET_LEN"
    using L4 L48 by (simp_all add: MIN_PACKET_LEN_def MAX_PACKET_LEN_def word_le_nat_alt)
  have l64: "length (rxbuf p) = 64" using ok by (simp add: parser_ok_def MAX_RX_BUF_def)
  let ?p2 = "p\<lparr> rxbuf := (rxbuf p)[0 := L], rxptr := 1, rxstate := 6 \<rparr>"
  have s2: "invent_ems_feed_byte L p = ?p2" by (rule feed_length [OF st wL])
  have ok2: "parser_ok ?p2" using parser_ok_feed_byte [OF ok, of L] s2 by simp
  have z2: "rxbuf ?p2 ! 0 = L" using l64 by simp
  have pre: "unat (rxptr ?p2) + length mid \<le> unat (rxbuf ?p2 ! 0)"
    using len L4 l64 by simp
  have LL: "(1 :: u8) + of_nat (unat L - Suc 0) = L"
    using L4 by (simp add: of_nat_diff)
  have st0: "stored (Suc 0) mid ((rxbuf p)[0 := L]) = stored 0 (L # mid) (rxbuf p)"
    using l64 by (simp add: stored_Cons)
  from feed_payload [OF ok2 _ pre]
  have f3: "feed_bytes mid ?p2 = p\<lparr> rxstate := 6, rxbuf := stored 0 (L # mid) (rxbuf p), rxptr := L \<rparr>"
    and d3: "frames_decoded mid ?p2 = 0"
    by (simp_all add: len LL st0)
  let ?p3 = "p\<lparr> rxstate := 6, rxbuf := stored 0 (L # mid) (rxbuf p), rxptr := L \<rparr>"
  show a: "feed_bytes (L # mid) p = ?p3" by (simp add: s2 f3)
  show "frames_decoded (L # mid) p = 0" by (simp add: s2 d3)
  have ok3: "parser_ok ?p3" using parser_ok_feed_bytes [OF ok, of "L # mid"] a by simp
  have z3: "rxbuf ?p3 ! 0 = L" using l64 by (simp add: stored_def)
  have eq3: "rxptr ?p3 = rxbuf ?p3 ! 0" using z3 by simp
  have sn: "(stored 0 (L # mid) (rxbuf p))[unat L := hi] = stored 0 (L # mid @ [hi]) (rxbuf p)"
    using stored_snoc [of 0 "L # mid" "rxbuf p" hi] len L4 L48 l64 by simp
  have z4: "stored 0 (L # mid @ [hi]) (rxbuf p) ! 0 = L" by (simp add: stored_def)
  have "invent_ems_feed_byte hi ?p3 =
          frame_end (p\<lparr> rxstate := 6, rxbuf := stored 0 (L # mid @ [hi]) (rxbuf p),
                         rxptr := L + 1 \<rparr>)"
    by (simp add: feed_byte_state6 accumulate_last [OF ok3 _ eq3] Let_def frame_end_def sn z4
        cong: if_cong)
  then show "feed_bytes (L # mid @ [hi]) p =
           frame_end (p\<lparr> rxstate := 6, rxbuf := stored 0 (L # mid @ [hi]) (rxbuf p),
                         rxptr := L + 1 \<rparr>)"
    using feed_bytes_append [of "L # mid" "[hi]" p] a by simp
qed

lemma parse_fast_counts [simp]:
  "packet_count (parse_fast buf e) = packet_count e"
  "error_count (parse_fast buf e) = error_count e"
  by (simp_all add: parse_fast_def Let_def)

lemma parse_slow_counts [simp]:
  "packet_count (parse_slow i s e) = packet_count e"
  "error_count (parse_slow i s e) = error_count e"
  by (simp_all add: parse_slow_def)

lemma parse_packet_count:
  "packet_count (ecu_data (parse_packet q)) = packet_count (ecu_data q) + 1"
  "error_count (ecu_data (parse_packet q)) = error_count (ecu_data q)"
  "new_data_flag (parse_packet q)"
  "connected (ecu_data (parse_packet q))"
  by (simp_all add: parse_packet_def Let_def)

lemma valid_frame_split:
  assumes "valid_frame f"
  obtains L mid hi where "f = sync_header @ L # mid @ [hi]"
    and "4 \<le> unat L" and "unat L \<le> 48" and "length mid = unat L - 1"
    and "read_u16 (L # mid @ [hi]) (unat L - 1) = spec_checksum (take (unat L - 1) (L # mid))"
proof -
  let ?body = "drop 5 f"
  let ?L = "f ! 5"
  have f: "f = sync_header @ ?body"
    using assms by (metis append_take_drop_id valid_frame_def)
  have L4: "4 \<le> unat ?L" and L48: "unat ?L \<le> 48"
    using assms
    by (simp_all add: valid_frame_def MIN_PACKET_LEN_def MAX_PACKET_LEN_def word_le_nat_alt)
  have lb: "length ?body = unat ?L + 1" using assms by (simp add: valid_frame_def)
  have b0: "?body ! 0 = ?L" using assms by (simp add: valid_frame_def)
  define mid where "mid = butlast (tl ?body)"
  define hi where "hi = last ?body"
  have ne: "tl ?body \<noteq> []" using lb L4 by (cases ?body) auto
  have body: "?body = ?L # mid @ [hi]"
    using lb b0 ne unfolding mid_def hi_def
    by (cases ?body) (auto simp: last_tl)
  have lm: "length mid = unat ?L - 1" using lb by (simp add: mid_def)
  have rd: "read_u16 f (4 + unat ?L) = read_u16 ?body (unat ?L - 1)"
    using L4 lb by (simp add: read_u16_def add.commute)
  have tk: "take (unat ?L - 1) ?body = take (unat ?L - 1) (?L # mid)"
    using lm L4 by (subst body) (simp add: take_Cons')
  have "read_u16 (?L # mid @ [hi]) (unat ?L - 1) = spec_checksum (take (unat ?L - 1) (?L # mid))"
    using assms rd tk body by (simp add: valid_frame_def)
  then show ?thesis
    using that [of ?L mid hi] f body L4 L48 lm by simp
qed

lemma stored_prefix:
  "n \<le> length bs \<Longrightarrow> take n (stored 0 bs buf) = take n bs"
  by (simp add: stored_def)

lemma stored_read_u16:
  "Suc k < length bs \<Longrightarrow> read_u16 (stored 0 bs buf) k = read_u16 bs k"
  by (simp add: stored_def read_u16_def nth_append)

lemma feed_valid_frame:
  assumes ok: "parser_ok p" and st: "rxstate p \<le> 4" and vf: "valid_frame f"
  shows "feed_bytes f p =
           (parse_packet (p\<lparr> rxstate := 6, rxbuf := stored 0 (drop 5 f) (rxbuf p),
                               rxptr := f ! 5 + 1 \<rparr>)) \<lparr> rxstate := 0 \<rparr>"
    and "frames_decoded f p = 1"
proof -
  from vf obtain L mid hi where f: "f = sync_header @ L # mid @ [hi]"
    and L4: "4 \<le> unat L" and L48: "unat L \<le> 48" and lm: "length mid = unat L - 1"
    and crc: "read_u16 (L # mid @ [hi]) (unat L - 1) = spec_checksum (take (unat L - 1) (L # mid))"
    by (rule valid_frame_split)
  let ?p1 = "p\<lparr> rxstate := 5 \<rparr>"
  have ok1: "parser_ok ?p1" using ok by (simp add: parser_ok_def)
  let ?buf = "stored 0 (L # mid @ [hi]) (rxbuf p)"
  let ?q = "p\<lparr> rxstate := 6, rxbuf := ?buf, rxptr := L + 1 \<rparr>"
  have fb: "feed_bytes (L # mid) ?p1 = p\<lparr> rxstate := 6, rxbuf := stored 0 (L # mid) (rxbuf p), rxptr := L \<rparr>"
    and fd: "frames_decoded (L # mid) ?p1 = 0"
    and fe: "feed_bytes (L # mid @ [hi]) ?p1 = frame_end ?q"
    using feed_body [OF ok1 _ L4 L48 lm] by simp_all
  have l64: "length (rxbuf p) = 64" using ok by (simp add: parser_ok_def MAX_RX_BUF_def)
  have z: "?buf ! 0 = L" by (simp add: stored_def)
  have lb: "length ?buf = 64" using l64 lm L4 L48 by (simp add: stored_def)
  have cs: "checksum ?buf = spec_checksum (take (unat L - 1) ?buf)"
    using checksum_is_spec [of ?buf] z lb L4 L48 by simp
  have "take (unat L - 1) ((L # mid) @ [hi]) = take (unat L - 1) (L # mid)"
    using lm by (subst take_append) simp
  then have tk: "take (unat L - 1) ?buf = take (unat L - 1) (L # mid)"
    using lm L4 by (simp add: stored_prefix)
  have rd: "read_u16 ?buf (unat L - 1) = read_u16 (L # mid @ [hi]) (unat L - 1)"
    using lm L4 by (intro stored_read_u16) simp
  have acc: "frame_end ?q = (parse_packet ?q)\<lparr> rxstate := 0 \<rparr>"
    using cs tk rd crc z by (simp add: frame_end_def)
  have len5: "length sync_header = 5" by (simp add: sync_header_def)
  have d5: "drop 5 f = L # mid @ [hi]" and f5: "f ! 5 = L"
    using len5 by (simp_all add: f nth_append)
  have "feed_bytes f p = feed_bytes (L # mid @ [hi]) ?p1"
    using feed_sync(1) [OF st] by (simp add: f feed_bytes_append)
  then show "feed_bytes f p =
           (parse_packet (p\<lparr> rxstate := 6, rxbuf := stored 0 (drop 5 f) (rxbuf p),
                               rxptr := f ! 5 + 1 \<rparr>)) \<lparr> rxstate := 0 \<rparr>"
    using fe acc by (simp add: d5 f5)
  define p3 where "p3 = feed_bytes (L # mid) ?p1"
  have p3: "ecu_data p3 = ecu_data p" unfolding p3_def by (subst fb) simp
  have last: "invent_ems_feed_byte hi p3 = (parse_packet ?q)\<lparr> rxstate := 0 \<rparr>"
    unfolding p3_def using fe acc feed_bytes_append [of "L # mid" "[hi]" ?p1] by simp
  have "frames_decoded [hi] p3 = 1"
    by (simp add: last parse_packet_count(1) p3)
  then have "frames_decoded (L # mid @ [hi]) ?p1 = 1"
    using frames_decoded_append [of "L # mid" "[hi]" ?p1] fd by (simp add: p3_def)
  then show "frames_decoded f p = 1"
    using feed_sync [OF st] by (simp add: f frames_decoded_append)
qed






lemma slow_fields_parse_fast: "slow_fields (parse_fast buf e) = slow_fields e"
  by (simp add: slow_fields_def parse_fast_def Let_def)

text \<open>
  C10 (as amended). When the last byte of a frame arrives, the checksum verifies and the
  slow-variant index byte \<open>rxbuf[24]\<close> is 10 or more, the frame is accepted: the thirteen
  fast fields of the record are decoded from the bytes 2 to 17 of the buffer, each with
  its scale in single precision, \<open>connected\<close> is set and \<open>packet_count\<close> goes up by one,
  and every other field of the record, those of the ten slow variants among them, keeps
  its value; the new-data flag is raised and the parser is back in state 0. The five
  diagnostic fields of the wire (bytes 18 to 23) are not decoded: the record has no
  field for them.
\<close>

theorem slow_id_out_of_range:
  assumes "parser_ok p" and "rxstate p = 6" and "rxptr p = rxbuf p ! 0"
    and "checksum ((rxbuf p)[unat (rxptr p) := byte])
         = read_u16 ((rxbuf p)[unat (rxptr p) := byte]) (unat (rxptr p) - 1)"
    and "(rxbuf p)[unat (rxptr p) := byte] ! 24 \<ge> 10"
  shows "ecu_data (invent_ems_feed_byte byte p)
           = (ecu_data p)
               \<lparr> runlevel := (rxbuf p)[unat (rxptr p) := byte] ! 2,
                 ign_angle :=
                   Fin (f32_mul (f_i16 (read_i16 ((rxbuf p)[unat (rxptr p) := byte]) 3)) 0.25),
                 fuel_flow :=
                   Fin (f32_mul (f_u8 ((rxbuf p)[unat (rxptr p) := byte] ! 5)) (f32_div 1 16)),
                 rpm :=
                   (if read_u16 ((rxbuf p)[unat (rxptr p) := byte]) 6 > 0
                    then Fin (f32_div 10000000
                                (f_u16 (read_u16 ((rxbuf p)[unat (rxptr p) := byte]) 6)))
                    else Fin 0),
                 inj_time_ms :=
                   Fin (f32_mul (f_u16 (read_u16 ((rxbuf p)[unat (rxptr p) := byte]) 8))
                          (f32 0.004)),
                 knock_v :=
                   Fin (f32_mul (f_u8 ((rxbuf p)[unat (rxptr p) := byte] ! 10)) (f32_div 5 256)),
                 tps :=
                   Fin (f32_mul (f_u8 ((rxbuf p)[unat (rxptr p) := byte] ! 11)) (f32_div 100 255)),
                 dbw_pos :=
                   Fin (f32_mul (f_u8 ((rxbuf p)[unat (rxptr p) := byte] ! 12)) (f32_div 100 255)),
                 map_kpa := Fin (f32_mul (f_u8 ((rxbuf p)[unat (rxptr p) := byte] ! 13)) 2),
                 lambda :=
                   Fin (f32_mul (f_u8 ((rxbuf p)[unat (rxptr p) := byte] ! 14)) (f32_div 1 128)),
                 cyl_no := (rxbuf p)[unat (rxptr p) := byte] ! 15,
                 transient_corr := (rxbuf p)[unat (rxptr p) := byte] ! 16,
                 speed := Fin (f_u8 ((rxbuf p)[unat (rxptr p) := byte] ! 17)),
                 connected := True,
                 packet_count := packet_count (ecu_data p) + 1 \<rparr>
       \<and> new_data_flag (invent_ems_feed_byte byte p)
       \<and> slow_fields (ecu_data (invent_ems_feed_byte byte p)) = slow_fields (ecu_data p)
       \<and> rxstate (invent_ems_feed_byte byte p) = 0"
proof -
  let ?buf = "(rxbuf p)[unat (rxptr p) := byte]"
  let ?q = "p\<lparr> rxbuf := ?buf, rxptr := rxptr p + 1 \<rparr>"
  have no: "\<not> ?buf ! 24 < SLOW_PACKET_COUNT"
    using assms(5) by (simp add: SLOW_PACKET_COUNT_def not_less)
  have fb: "invent_ems_feed_byte byte p = (parse_packet ?q)\<lparr> rxstate := 0 \<rparr>"
    using assms(4)
    by (simp add: feed_byte_state6 [OF assms(2)] accumulate_last [OF assms(1,2,3)] Let_def)
  have e: "ecu_data (parse_packet ?q) =
           (parse_fast ?buf (ecu_data p))
               \<lparr> connected := True, packet_count := packet_count (ecu_data p) + 1 \<rparr>"
    using no by (simp add: parse_packet_def Let_def)
  have s: "slow_fields ((parse_fast ?buf (ecu_data p))
               \<lparr> connected := True, packet_count := packet_count (ecu_data p) + 1 \<rparr>)
           = slow_fields (ecu_data p)"
    using slow_fields_parse_fast [of ?buf "ecu_data p"] by (simp add: slow_fields_def)
  have a: "ecu_data (invent_ems_feed_byte byte p)
           = (parse_fast ?buf (ecu_data p))
               \<lparr> connected := True, packet_count := packet_count (ecu_data p) + 1 \<rparr>"
    by (simp add: fb e)
  have b: "new_data_flag (invent_ems_feed_byte byte p)"
    by (simp add: fb parse_packet_count(3))
  have c: "slow_fields (ecu_data (invent_ems_feed_byte byte p)) = slow_fields (ecu_data p)"
    unfolding a by (rule s)
  have d: "rxstate (invent_ems_feed_byte byte p) = 0"
    by (simp add: fb)
  have a': "ecu_data (invent_ems_feed_byte byte p)
           = (ecu_data p)
               \<lparr> runlevel := ?buf ! 2,
                 ign_angle := Fin (f32_mul (f_i16 (read_i16 ?buf 3)) 0.25),
                 fuel_flow := Fin (f32_mul (f_u8 (?buf ! 5)) (f32_div 1 16)),
                 rpm := (if read_u16 ?buf 6 > 0
                         then Fin (f32_div 10000000 (f_u16 (read_u16 ?buf 6))) else Fin 0),
                 inj_time_ms := Fin (f32_mul (f_u16 (read_u16 ?buf 8)) (f32 0.004)),
                 knock_v := Fin (f32_mul (f_u8 (?buf ! 10)) (f32_div 5 256)),
                 tps := Fin (f32_mul (f_u8 (?buf ! 11)) (f32_div 100 255)),
                 dbw_pos := Fin (f32_mul (f_u8 (?buf ! 12)) (f32_div 100 255)),
                 map_kpa := Fin (f32_mul (f_u8 (?buf ! 13)) 2),
                 lambda := Fin (f32_mul (f_u8 (?buf ! 14)) (f32_div 1 128)),
                 cyl_no := ?buf ! 15,
                 transient_corr := ?buf ! 16,
                 speed := Fin (f_u8 (?buf ! 17)),
                 connected := True,
                 packet_count := packet_count (ecu_data p) + 1 \<rparr>"
    unfolding a by (simp add: parse_fast_def Let_def)
  show ?thesis
    using a' b c d by (intro conjI)
qed

lemma sample_checksum: "spec_checksum [4, 1, 2] = 0x6098"
  by (simp add: spec_checksum_def spec_crc_byte_def)


lemma sample_pending_ok:
  "parser_ok (sample_pending x)" "rxstate (sample_pending x) = 6"
  "rxptr (sample_pending x) = rxbuf (sample_pending x) ! 0"
  by (simp_all add: sample_pending_def parser_ok_def MAX_RX_BUF_def MIN_PACKET_LEN_def
      MAX_PACKET_LEN_def initial_parser_def invent_ems_init_def power_on_def)

lemma sample_pending_buf:
  "(rxbuf (sample_pending x))[unat (rxptr (sample_pending x)) := b]
     = [4, 1, 2, 0x98, b] @ replicate 59 x"
proof -
  have "unat (4 :: u8) = Suc (Suc (Suc (Suc 0)))" by simp
  moreover have "replicate 60 x = x # replicate 59 x" by (simp flip: replicate_Suc)
  ultimately show ?thesis by (simp add: sample_pending_def)
qed

lemma sample_pending_checksum:
  "checksum ([4, 1, 2, 0x98, b] @ replicate 59 x) = 0x6098"
proof -
  have "checksum ([4, 1, 2, 0x98, b] @ replicate 59 x)
          = spec_checksum (take (unat (4 :: u8) - 1) ([4, 1, 2, 0x98, b] @ replicate 59 x))"
    using checksum_is_spec [of "[4, 1, 2, 0x98, b] @ replicate 59 x"] by simp
  then show ?thesis by (simp add: sample_checksum)
qed

lemma initial_rxstate: "rxstate initial_parser = 0"
  by (simp add: initial_parser_def invent_ems_init_def)

theorem resync_same_byte_witness:
  "rxstate (initial_parser\<lparr> rxstate := 2 \<rparr>) \<in> {1, 2, 3, 4}
   \<and> HEADER_0 \<noteq> expected_byte (rxstate (initial_parser\<lparr> rxstate := 2 \<rparr>))
   \<and> invent_ems_feed_byte HEADER_0 (initial_parser\<lparr> rxstate := 2 \<rparr>)
       = invent_ems_feed_byte HEADER_0 (initial_parser\<lparr> rxstate := 0 \<rparr>)
   \<and> invent_ems_feed_byte HEADER_0 (initial_parser\<lparr> rxstate := 2 \<rparr>)
       = initial_parser\<lparr> rxstate := 1 \<rparr>"
proof -
  let ?p = "initial_parser\<lparr> rxstate := 2 \<rparr>"
  have h1: "rxstate ?p \<in> {1, 2, 3, 4}" by simp
  have h2: "HEADER_0 \<noteq> expected_byte (rxstate ?p)"
    by (simp add: expected_byte_def HEADER_0_def HEADER_2_def)
  note r = resync_same_byte [OF h1 h2]
  have c2: "invent_ems_feed_byte HEADER_0 ?p = initial_parser\<lparr> rxstate := 1 \<rparr>"
    using r [THEN conjunct2] by simp
  have c1: "invent_ems_feed_byte HEADER_0 ?p
            = invent_ems_feed_byte HEADER_0 (initial_parser\<lparr> rxstate := 0 \<rparr>)"
    using r [THEN conjunct1] by simp
  show ?thesis using h1 h2 c1 c2 by blast
qed

theorem unknown_can_id_witness:
  "(0x301 :: u32) \<notin> {0x300, 0x302, 0x304, 0x305, 0x306, 0x307, 0x340}
   \<and> invent_ems_feed_can_frame 0x301 [1, 2, 3, 4, 5, 6, 7, 8] 8 initial_parser
       = (False, initial_parser)"
  using unknown_can_id [of "0x301" "[1, 2, 3, 4, 5, 6, 7, 8]" 8 initial_parser] by simp

theorem checksum_mismatch_witness:
  "parser_ok (sample_pending 0) \<and> rxstate (sample_pending 0) = 6
   \<and> rxptr (sample_pending 0) = rxbuf (sample_pending 0) ! 0
   \<and> checksum ((rxbuf (sample_pending 0))[unat (rxptr (sample_pending 0)) := 0x61])
       \<noteq> read_u16 ((rxbuf (sample_pending 0))[unat (rxptr (sample_pending 0)) := 0x61])
            (unat (rxptr (sample_pending 0)) - 1)
   \<and> ecu_data (invent_ems_feed_byte 0x61 (sample_pending 0))
       = (ecu_data (sample_pending 0))\<lparr> error_count := error_count (ecu_data (sample_pending 0)) + 1 \<rparr>
   \<and> new_data_flag (invent_ems_feed_byte 0x61 (sample_pending 0)) = new_data_flag (sample_pending 0)
   \<and> rxstate (invent_ems_feed_byte 0x61 (sample_pending 0)) = 0"
proof -
  have c: "checksum ((rxbuf (sample_pending 0))[unat (rxptr (sample_pending 0)) := 0x61])
       \<noteq> read_u16 ((rxbuf (sample_pending 0))[unat (rxptr (sample_pending 0)) := 0x61])
            (unat (rxptr (sample_pending 0)) - 1)"
    unfolding sample_pending_buf sample_pending_checksum
    by (simp add: sample_pending_def read_u16_def)
  show ?thesis
    using checksum_mismatch [OF sample_pending_ok c] sample_pending_ok [of 0] c by blast
qed



text \<open>
  The length state as the code has it: after the sync bytes and the version, the first
  byte \<open>0x55\<close> of a following frame fails the length test, the parser goes to state 0
  without looking at the byte again, and the frame is lost. The cases 1 to 4 of the same
  switch set \<open>retry\<close> on a failing byte; case 5 does not.
\<close>

lemma length_state_drops_frame:
  "rxstate (feed_bytes [0x55, 0x00, 0xAA, 0x00, 0x54] initial_parser) = 5
   \<and> invent_ems_feed_byte 0x55 (feed_bytes [0x55, 0x00, 0xAA, 0x00, 0x54] initial_parser)
       = initial_parser
   \<and> frames_decoded sample_frame (feed_bytes [0x55, 0x00, 0xAA, 0x00, 0x54] initial_parser) = 0"
proof -
  have hdr: "[0x55, 0x00, 0xAA, 0x00, 0x54] = sync_header"
    by (simp add: sync_header_def HEADER_0_def HEADER_1_def HEADER_2_def HEADER_3_def
        INVENT_EMS_PROTOCOL_VER_def)
  have le: "rxstate initial_parser \<le> 4" by (simp add: initial_rxstate)
  let ?p5 = "initial_parser\<lparr> rxstate := 5 \<rparr>"
  have p5: "feed_bytes [0x55, 0x00, 0xAA, 0x00, 0x54] initial_parser = ?p5"
    unfolding hdr by (rule feed_sync(1) [OF le])
  have five: "invent_ems_feed_byte 0x55 ?p5 = initial_parser"
    by (subst feed_byte_unfold)
      (simp add: feed_switch_def MIN_PACKET_LEN_def MAX_PACKET_LEN_def initial_parser_def
        invent_ems_init_def word_le_nat_alt)
  have zero: "b \<noteq> 0x55 \<Longrightarrow> invent_ems_feed_byte b initial_parser = initial_parser" for b
    using feed_byte_state0 [OF initial_rxstate, of b] by (simp add: HEADER_0_def)
  have "frames_decoded sample_frame ?p5 = 0"
    by (simp add: sample_frame_def five zero)
  then show ?thesis
    unfolding p5 using five by simp
qed

section \<open>A frame with slow index 10\<close>

lemma index_ten_checksum:
  "spec_checksum (index_ten_body 0) = 0xEAB1" "spec_checksum (index_ten_body 7) = 0x1026"
  by (simp_all add: index_ten_body_def spec_checksum_def spec_crc_byte_def)

lemma index_ten_valid: "valid_frame index_ten_frame" "valid_frame index_ten_frame_diag"
proof -
  have l: "length (index_ten_body k) = 36" for k by (simp add: index_ten_body_def)
  have z: "index_ten_body k ! 0 = 37" for k by (simp add: index_ten_body_def)
  have v: "valid_frame ([0x55, 0x00, 0xAA, 0x00, 0x54] @ index_ten_body k @ [lo, hi])"
    if "spec_checksum (index_ten_body k) = ucast lo OR push_bit 8 (ucast hi)" for k lo hi
  proof -
    let ?f = "[0x55, 0x00, 0xAA, 0x00, 0x54] @ index_ten_body k @ [lo, hi]"
    have f5: "?f ! 5 = 37" using z [of k] l [of k] by (simp add: nth_append)
    have rd: "read_u16 ?f 41 = ucast lo OR push_bit 8 (ucast hi)"
      using l [of k] by (simp add: read_u16_def nth_append)
    have tk: "take 36 (drop 5 ?f) = index_ten_body k" using l [of k] by simp
    show ?thesis
      unfolding valid_frame_def f5
      using l [of k] rd tk that
      by (simp add: sync_header_def HEADER_0_def HEADER_1_def HEADER_2_def HEADER_3_def
          INVENT_EMS_PROTOCOL_VER_def MIN_PACKET_LEN_def MAX_PACKET_LEN_def)
  qed
  show "valid_frame index_ten_frame"
    unfolding index_ten_frame_def by (rule v) (simp add: index_ten_checksum)
  show "valid_frame index_ten_frame_diag"
    unfolding index_ten_frame_diag_def by (rule v) (simp add: index_ten_checksum)
qed

lemma index_ten_pending_eq:
  "index_ten_pending =
     initial_parser\<lparr> rxstate := 6,
                      rxbuf := index_ten_body 0 @ [0xB1] @ replicate 27 0, rxptr := 37 \<rparr>"
proof -
  let ?mid = "tl (index_ten_body 0) @ [0xB1]"
  have hd: "butlast index_ten_frame = sync_header @ 37 # ?mid"
    by (simp add: index_ten_frame_def index_ten_body_def sync_header_def HEADER_0_def
        HEADER_1_def HEADER_2_def HEADER_3_def INVENT_EMS_PROTOCOL_VER_def)
  have le: "rxstate initial_parser \<le> 4" by (simp add: initial_rxstate)
  let ?p5 = "initial_parser\<lparr> rxstate := 5 \<rparr>"
  have ok5: "parser_ok ?p5" using parser_ok_initial by (simp add: parser_ok_def)
  have st5: "rxstate ?p5 = 5" by simp
  have len: "length ?mid = unat (37 :: u8) - 1" by (simp add: index_ten_body_def)
  have buf0: "rxbuf initial_parser = replicate 64 0"
    by (simp add: initial_parser_def invent_ems_init_def power_on_def MAX_RX_BUF_def)
  have st: "stored 0 (37 # ?mid) (replicate 64 0)
            = index_ten_body 0 @ [0xB1] @ replicate 27 0"
    by (simp add: stored_def index_ten_body_def)
  have "feed_bytes (37 # ?mid) ?p5 =
          ?p5\<lparr> rxstate := 6, rxbuf := stored 0 (37 # ?mid) (rxbuf ?p5), rxptr := 37 \<rparr>"
    by (rule feed_body(1) [OF ok5 st5 _ _ len]) simp_all
  then show ?thesis
    unfolding index_ten_pending_def hd feed_bytes_append feed_sync(1) [OF le]
    by (simp add: buf0 st)
qed

lemma index_ten_buf:
  "(rxbuf index_ten_pending)[unat (rxptr index_ten_pending) := b]
     = index_ten_body 0 @ [0xB1, b] @ replicate 26 0"
proof -
  have l: "length (index_ten_body 0 @ [0xB1]) = 37" by (simp add: index_ten_body_def)
  have r: "replicate 27 (0 :: u8) = 0 # replicate 26 0" by (simp flip: replicate_Suc)
  have "(index_ten_body 0 @ [0xB1] @ replicate 27 0)[37 := b]
          = (index_ten_body 0 @ [0xB1]) @ (replicate 27 0)[0 := b]"
    using l list_update_append [of "index_ten_body 0 @ [0xB1]" "replicate 27 0" 37 b]
    by simp
  then show ?thesis
    by (simp add: index_ten_pending_eq r)
qed

lemma index_ten_buf_checksum:
  "checksum (index_ten_body 0 @ [0xB1, b] @ replicate 26 0) = 0xEAB1"
proof -
  let ?B = "index_ten_body 0 @ [0xB1, b] @ replicate 26 0"
  have z: "?B ! 0 = 37" by (simp add: index_ten_body_def)
  have l: "length (index_ten_body 0) = 36" by (simp add: index_ten_body_def)
  have "checksum ?B = spec_checksum (take (unat (?B ! 0) - 1) ?B)"
    using z l by (intro checksum_is_spec) simp_all
  also have "take (unat (?B ! 0) - 1) ?B = index_ten_body 0"
    unfolding z using l by simp
  finally show ?thesis by (simp add: index_ten_checksum)
qed

lemma index_ten_decoded:
  "parse_fast (index_ten_body k @ rest) e
     = e\<lparr> runlevel := 2, ign_angle := Fin 10, fuel_flow := Fin 1.5, rpm := Fin 1000,
          inj_time_ms := Fin 2.5, knock_v := Fin (25 / 128), tps := Fin 100,
          dbw_pos := Fin (13158601 / 262144), map_kpa := Fin 34, lambda := Fin 1,
          cyl_no := 3, transient_corr := 0xFF, speed := Fin 60 \<rparr>"
  by (simp add: parse_fast_def index_ten_body_def read_u16_def read_i16_def f32_eval
      f_u8_def f_u16_def f_i16_def)

theorem slow_id_out_of_range_witness:
  "parser_ok index_ten_pending \<and> rxstate index_ten_pending = 6
   \<and> rxptr index_ten_pending = rxbuf index_ten_pending ! 0
   \<and> checksum ((rxbuf index_ten_pending)[unat (rxptr index_ten_pending) := 0xEA])
       = read_u16 ((rxbuf index_ten_pending)[unat (rxptr index_ten_pending) := 0xEA])
           (unat (rxptr index_ten_pending) - 1)
   \<and> (rxbuf index_ten_pending)[unat (rxptr index_ten_pending) := 0xEA] ! 24 \<ge> 10
   \<and> (rxbuf index_ten_pending)[unat (rxptr index_ten_pending) := 0xEA] ! 24
       = index_ten_frame ! 29
   \<and> ecu_data (invent_ems_feed_byte 0xEA index_ten_pending)
       = (ecu_data initial_parser)
           \<lparr> runlevel := 2, ign_angle := Fin 10, fuel_flow := Fin 1.5, rpm := Fin 1000,
             inj_time_ms := Fin 2.5, knock_v := Fin (25 / 128), tps := Fin 100,
             dbw_pos := Fin (13158601 / 262144), map_kpa := Fin 34, lambda := Fin 1,
             cyl_no := 3, transient_corr := 0xFF, speed := Fin 60,
             connected := True, packet_count := 1 \<rparr>
   \<and> new_data_flag (invent_ems_feed_byte 0xEA index_ten_pending)
   \<and> slow_fields (ecu_data (invent_ems_feed_byte 0xEA index_ten_pending))
       = slow_fields (ecu_data initial_parser)
   \<and> rxstate (invent_ems_feed_byte 0xEA index_ten_pending) = 0"
proof -
  let ?P = index_ten_pending
  let ?B = "(rxbuf ?P)[unat (rxptr ?P) := 0xEA]"
  have ok: "parser_ok ?P"
    unfolding index_ten_pending_def by (rule parser_ok_feed_bytes [OF parser_ok_initial])
  have st: "rxstate ?P = 6" by (simp add: index_ten_pending_eq)
  have pt: "rxptr ?P = rxbuf ?P ! 0" by (simp add: index_ten_pending_eq index_ten_body_def)
  have l: "length (index_ten_body 0) = 36" by (simp add: index_ten_body_def)
  have c: "checksum ?B = read_u16 ?B (unat (rxptr ?P) - 1)"
    unfolding index_ten_buf index_ten_buf_checksum
    using l by (simp add: index_ten_pending_eq read_u16_def nth_append)
  have i: "?B ! 24 \<ge> 10"
    unfolding index_ten_buf by (simp add: index_ten_body_def)
  have j: "?B ! 24 = index_ten_frame ! 29"
    unfolding index_ten_buf by (simp add: index_ten_body_def index_ten_frame_def)
  have e0: "ecu_data ?P = ecu_data initial_parser" by (simp add: index_ten_pending_eq)
  have pc: "packet_count (ecu_data initial_parser) = 0"
    by (simp add: initial_parser_def invent_ems_init_def zero_data_def)
  note r = slow_id_out_of_range [OF ok st pt c i]
  have a: "ecu_data (invent_ems_feed_byte 0xEA ?P)
       = (ecu_data initial_parser)
           \<lparr> runlevel := 2, ign_angle := Fin 10, fuel_flow := Fin 1.5, rpm := Fin 1000,
             inj_time_ms := Fin 2.5, knock_v := Fin (25 / 128), tps := Fin 100,
             dbw_pos := Fin (13158601 / 262144), map_kpa := Fin 34, lambda := Fin 1,
             cyl_no := 3, transient_corr := 0xFF, speed := Fin 60,
             connected := True, packet_count := 1 \<rparr>"
    unfolding r [THEN conjunct1] index_ten_buf e0
    by (simp add: pc index_ten_body_def read_u16_def read_i16_def f32_eval
        f_u8_def f_u16_def f_i16_def)
  have s: "slow_fields (ecu_data (invent_ems_feed_byte 0xEA ?P))
             = slow_fields (ecu_data initial_parser)"
    using r [THEN conjunct2, THEN conjunct2, THEN conjunct1] by (simp add: e0)
  show ?thesis
    using ok st pt c i j a s r [THEN conjunct2, THEN conjunct1]
      r [THEN conjunct2, THEN conjunct2, THEN conjunct2] by blast
qed

lemma index_ten_fed:
  assumes "valid_frame ([0x55, 0x00, 0xAA, 0x00, 0x54] @ index_ten_body k @ [lo, hi])"
  shows "ecu_data (feed_bytes ([0x55, 0x00, 0xAA, 0x00, 0x54] @ index_ten_body k @ [lo, hi])
            initial_parser)
       = (ecu_data initial_parser)
           \<lparr> runlevel := 2, ign_angle := Fin 10, fuel_flow := Fin 1.5, rpm := Fin 1000,
             inj_time_ms := Fin 2.5, knock_v := Fin (25 / 128), tps := Fin 100,
             dbw_pos := Fin (13158601 / 262144), map_kpa := Fin 34, lambda := Fin 1,
             cyl_no := 3, transient_corr := 0xFF, speed := Fin 60,
             connected := True, packet_count := 1 \<rparr>"
proof -
  let ?f = "[0x55, 0x00, 0xAA, 0x00, 0x54] @ index_ten_body k @ [lo, hi]"
  have le: "rxstate initial_parser \<le> 4" by (simp add: initial_rxstate)
  have l: "length (index_ten_body k) = 36" by (simp add: index_ten_body_def)
  have buf0: "rxbuf initial_parser = replicate 64 0"
    by (simp add: initial_parser_def invent_ems_init_def power_on_def MAX_RX_BUF_def)
  have st: "stored 0 (drop 5 ?f) (rxbuf initial_parser)
            = index_ten_body k @ ([lo, hi] @ replicate 26 0)"
    using l by (simp add: stored_def buf0)
  have pc: "packet_count (ecu_data initial_parser) = 0"
    by (simp add: initial_parser_def invent_ems_init_def zero_data_def)
  show ?thesis
    unfolding feed_valid_frame(1) [OF parser_ok_initial le assms] st
    by (simp add: parse_packet_def Let_def SLOW_PACKET_COUNT_def index_ten_decoded pc)
      (simp add: index_ten_body_def)
qed

text \<open>
  C10 as stated fails in its count of 18 decoded fast channels: two valid frames that
  differ only in the first diagnostic byte (stream offset 23, \<open>rxbuf[18]\<close>) and in their
  checksums leave the same telemetry record.
\<close>

theorem diagnostic_bytes_counterexample:
  "valid_frame index_ten_frame \<and> valid_frame index_ten_frame_diag
   \<and> index_ten_frame ! 23 = 0 \<and> index_ten_frame_diag ! 23 = 7
   \<and> ecu_data (feed_bytes index_ten_frame initial_parser)
       = ecu_data (feed_bytes index_ten_frame_diag initial_parser)"
proof -
  have a: "index_ten_frame ! 23 = 0" "index_ten_frame_diag ! 23 = 7"
    by (simp_all add: index_ten_frame_def index_ten_frame_diag_def index_ten_body_def)
  have v0: "valid_frame ([0x55, 0x00, 0xAA, 0x00, 0x54] @ index_ten_body 0 @ [0xB1, 0xEA])"
    using index_ten_valid(1) unfolding index_ten_frame_def .
  have v7: "valid_frame ([0x55, 0x00, 0xAA, 0x00, 0x54] @ index_ten_body 7 @ [0x26, 0x10])"
    using index_ten_valid(2) unfolding index_ten_frame_diag_def .
  have b: "ecu_data (feed_bytes index_ten_frame initial_parser)
       = ecu_data (feed_bytes index_ten_frame_diag initial_parser)"
    unfolding index_ten_frame_def index_ten_frame_diag_def
      index_ten_fed [OF v0] index_ten_fed [OF v7] by (rule refl)
  show ?thesis using index_ten_valid a b by blast
qed

section \<open>The ring buffers as queues\<close>

lemma mod_lt2: "(a :: nat) < 2 * c \<Longrightarrow> a mod c = (if a < c then a else a - c)"
  by (simp add: mod_if)

lemma ring_items_empty: "tail < cap \<Longrightarrow> ring_items cap buf tail tail = []"
  by (simp add: ring_items_def)

lemma ring_count:
  fixes head tail cap :: nat
  assumes "head < cap" "tail < cap"
  shows "(head + cap - tail) mod cap = (if tail \<le> head then head - tail else head + cap - tail)"
proof -
  have "head + cap - tail < 2 * cap" using assms by simp
  then show ?thesis using assms by (simp add: mod_lt2)
qed

lemma ring_next:
  fixes k cap :: nat
  assumes "k < cap"
  shows "Suc k mod cap = (if Suc k < cap then Suc k else 0)"
  using assms by (simp add: mod_lt2)

lemma ring_count_push:
  fixes head tail cap :: nat
  assumes "head < cap" "tail < cap" "(head + 1) mod cap \<noteq> tail"
  shows "((head + 1) mod cap + cap - tail) mod cap = Suc ((head + cap - tail) mod cap)"
proof -
  have h: "(head + 1) mod cap < cap" using assms(1) by simp
  show ?thesis
    unfolding ring_count [OF h assms(2)] ring_count [OF assms(1,2)]
    using assms by (auto simp add: ring_next split: if_splits)
qed

lemma ring_index:
  fixes tail i cap :: nat
  assumes "tail < cap" "i < cap"
  shows "(tail + i) mod cap = (if tail + i < cap then tail + i else tail + i - cap)"
proof -
  have "tail + i < 2 * cap" using assms by simp
  then show ?thesis by (simp add: mod_lt2)
qed

lemma ring_index_old:
  fixes head tail i cap :: nat
  assumes "head < cap" "tail < cap" "i < (head + cap - tail) mod cap"
  shows "(tail + i) mod cap \<noteq> head"
proof -
  have i: "i < (if tail \<le> head then head - tail else head + cap - tail)"
    using assms(3) unfolding ring_count [OF assms(1,2)] .
  then have "i < cap" using assms(1,2) by (simp split: if_splits)
  then show ?thesis
    using i assms(1,2) by (auto simp add: ring_index [OF assms(2)] split: if_splits)
qed

lemma ring_index_new:
  fixes head tail cap :: nat
  assumes "head < cap" "tail < cap"
  shows "(tail + (head + cap - tail) mod cap) mod cap = head"
proof -
  have "(head + cap - tail) mod cap < cap" using assms(1) by simp
  then show ?thesis
    using assms by (simp add: ring_index [OF assms(2)] ring_count [OF assms])
qed

lemma ring_items_push:
  assumes "head < cap" "tail < cap" "length buf = cap" "(head + 1) mod cap \<noteq> tail"
  shows "ring_items cap (buf[head := x]) ((head + 1) mod cap) tail
           = ring_items cap buf head tail @ [x]"
proof -
  let ?n = "(head + cap - tail) mod cap"
  have old: "buf[head := x] ! ((tail + i) mod cap) = buf ! ((tail + i) mod cap)" if "i < ?n" for i
    using ring_index_old [OF assms(1,2) that] by (simp add: nth_list_update)
  have new: "buf[head := x] ! ((tail + ?n) mod cap) = x"
    using ring_index_new [OF assms(1,2)] assms(1,3) by simp
  show ?thesis
    unfolding ring_items_def ring_count_push [OF assms(1,2,4)]
    using old new by simp
qed

lemma ring_items_pop:
  assumes "head < cap" "tail < cap" "head \<noteq> tail"
  shows "ring_items cap buf head tail
           = buf ! tail # ring_items cap buf head ((tail + 1) mod cap)"
proof -
  let ?n = "(head + cap - tail) mod cap"
  let ?t = "(tail + 1) mod cap"
  have t: "?t < cap" using assms(2) by simp
  have n: "?n = Suc ((head + cap - ?t) mod cap)"
    unfolding ring_count [OF assms(1) t] ring_count [OF assms(1,2)]
    using assms by (auto simp add: ring_next split: if_splits)
  have ix: "(Suc tail mod cap + i) mod cap = Suc (tail + i) mod cap" for i
    by (metis add_Suc mod_add_left_eq)
  have "[0..<?n] = 0 # map Suc [0..<(head + cap - ?t) mod cap]"
    unfolding n by (simp only: map_Suc_upt upt_conv_Cons [OF zero_less_Suc])
  then show ?thesis
    using assms(2) by (simp add: ring_items_def ix comp_def)
qed

lemma ring_items_length:
  "0 < cap \<Longrightarrow> length (ring_items cap buf head tail) < cap"
  by (simp add: ring_items_def)

lemma u8_next: "k < 32 \<Longrightarrow> unat (of_nat k :: u8) = k"
  by (simp add: unat_of_nat)

lemma u16_next: "k < 256 \<Longrightarrow> unat (of_nat k :: u16) = k"
  by (simp add: unat_of_nat)

lemma can_push:
  assumes "can_ok r"
  shows "can_full r \<Longrightarrow> can_rx_cb N N m r = r"
    and "\<not> can_full r \<Longrightarrow>
           unat (rx_head (can_rx_cb N N m r)) = (unat (rx_head r) + 1) mod CAN_RX_BUF_SIZE
         \<and> rx_tail (can_rx_cb N N m r) = rx_tail r
         \<and> can_items (can_rx_cb N N m r)
             = can_items r @ [\<lparr> can_id = msg_id m, data = take 8 (msg_data m),
                                dlc = ucast (msg_dlc m) \<rparr>]"
    and "can_ok (can_rx_cb N N m r)"
proof -
  let ?n = "(unat (rx_head r) + 1) mod CAN_RX_BUF_SIZE"
  have n: "?n < 32" by (simp add: CAN_RX_BUF_SIZE_def)
  have un: "unat (of_nat ?n :: u8) = ?n" by (rule u8_next [OF n])
  have eq: "(of_nat ?n = rx_tail r) = (?n = unat (rx_tail r))"
    using un by (auto simp: word_unat_eq_iff)
  show "can_full r \<Longrightarrow> can_rx_cb N N m r = r"
    using eq by (simp add: can_rx_cb_def can_full_def Let_def)
  show "\<not> can_full r \<Longrightarrow>
           unat (rx_head (can_rx_cb N N m r)) = ?n
         \<and> rx_tail (can_rx_cb N N m r) = rx_tail r
         \<and> can_items (can_rx_cb N N m r)
             = can_items r @ [\<lparr> can_id = msg_id m, data = take 8 (msg_data m),
                                dlc = ucast (msg_dlc m) \<rparr>]"
    using eq un assms ring_items_push [of "unat (rx_head r)" CAN_RX_BUF_SIZE
        "unat (rx_tail r)" "rx_buf r"
        "\<lparr> can_id = msg_id m, data = take 8 (msg_data m), dlc = ucast (msg_dlc m) \<rparr>"]
    by (simp add: can_rx_cb_def can_full_def Let_def can_items_def can_ok_def)
  show "can_ok (can_rx_cb N N m r)"
    using assms un n by (simp add: can_rx_cb_def Let_def can_ok_def CAN_RX_BUF_SIZE_def)
qed

lemma can_pop:
  assumes "can_ok r"
  shows "bsp_can_recv r =
          (case can_items r of [] \<Rightarrow> (None, r)
           | x # xs \<Rightarrow> (Some x, r\<lparr> rx_tail := of_nat ((unat (rx_tail r) + 1) mod CAN_RX_BUF_SIZE) \<rparr>))"
    and "can_items (snd (bsp_can_recv r)) = tl (can_items r)"
    and "rx_head (snd (bsp_can_recv r)) = rx_head r"
    and "can_ok (snd (bsp_can_recv r))"
proof -
  let ?n = "(unat (rx_tail r) + 1) mod CAN_RX_BUF_SIZE"
  have n: "?n < 32" by (simp add: CAN_RX_BUF_SIZE_def)
  have un: "unat (of_nat ?n :: u8) = ?n" by (rule u8_next [OF n])
  have b: "unat (rx_head r) < CAN_RX_BUF_SIZE" "unat (rx_tail r) < CAN_RX_BUF_SIZE"
    using assms by (simp_all add: can_ok_def)
  show "rx_head (snd (bsp_can_recv r)) = rx_head r"
    by (simp add: bsp_can_recv_def)
  show "can_ok (snd (bsp_can_recv r))"
    using assms un n by (simp add: bsp_can_recv_def can_ok_def CAN_RX_BUF_SIZE_def)
  show "bsp_can_recv r =
          (case can_items r of [] \<Rightarrow> (None, r)
           | x # xs \<Rightarrow> (Some x, r\<lparr> rx_tail := of_nat ?n \<rparr>))"
  proof (cases "rx_tail r = rx_head r")
    case True
    then show ?thesis
      using b by (simp add: bsp_can_recv_def can_items_def ring_items_empty)
  next
    case False
    then have "unat (rx_head r) \<noteq> unat (rx_tail r)" by (simp add: word_unat_eq_iff)
    from ring_items_pop [OF b this, of "rx_buf r"] False
    show ?thesis by (simp add: bsp_can_recv_def can_items_def)
  qed
  show "can_items (snd (bsp_can_recv r)) = tl (can_items r)"
  proof (cases "rx_tail r = rx_head r")
    case True
    then show ?thesis
      using b by (simp add: bsp_can_recv_def can_items_def ring_items_empty)
  next
    case False
    then have "unat (rx_head r) \<noteq> unat (rx_tail r)" by (simp add: word_unat_eq_iff)
    from ring_items_pop [OF b this, of "rx_buf r"] False
    show ?thesis by (simp add: bsp_can_recv_def can_items_def un [simplified])
  qed
qed

lemma can_run_ok: "can_ok r \<Longrightarrow> can_ok (can_run N ops r)"
proof (induction ops arbitrary: r)
  case Nil
  then show ?case by simp
next
  case (Cons op ops)
  then show ?case by (cases op) (simp_all add: can_push(3) can_pop(4))
qed

lemma can_start_ok: "can_ok can_start"
  by (simp add: can_ok_def can_start_def CAN_RX_BUF_SIZE_def)

lemma uart_push:
  assumes "uart_ok r"
  shows "uart_full r \<Longrightarrow> uart_rx_push ch r = r"
    and "\<not> uart_full r \<Longrightarrow>
           unat (uart_rx_head (uart_rx_push ch r)) = (unat (uart_rx_head r) + 1) mod UART_RX_BUF_SIZE
         \<and> uart_rx_tail (uart_rx_push ch r) = uart_rx_tail r
         \<and> uart_items (uart_rx_push ch r) = uart_items r @ [ch]"
    and "uart_ok (uart_rx_push ch r)"
proof -
  let ?n = "(unat (uart_rx_head r) + 1) mod UART_RX_BUF_SIZE"
  have n: "?n < 256" by (simp add: UART_RX_BUF_SIZE_def)
  have un: "unat (of_nat ?n :: u16) = ?n" by (rule u16_next [OF n])
  have eq: "(of_nat ?n = uart_rx_tail r) = (?n = unat (uart_rx_tail r))"
    using un by (auto simp: word_unat_eq_iff)
  show "uart_full r \<Longrightarrow> uart_rx_push ch r = r"
    using eq by (simp add: uart_rx_push_def uart_full_def Let_def)
  show "\<not> uart_full r \<Longrightarrow>
           unat (uart_rx_head (uart_rx_push ch r)) = ?n
         \<and> uart_rx_tail (uart_rx_push ch r) = uart_rx_tail r
         \<and> uart_items (uart_rx_push ch r) = uart_items r @ [ch]"
    using eq un assms
      ring_items_push [of "unat (uart_rx_head r)" UART_RX_BUF_SIZE "unat (uart_rx_tail r)"
        "uart_rx_buf r" ch]
    by (simp add: uart_rx_push_def uart_full_def Let_def uart_items_def uart_ok_def)
  show "uart_ok (uart_rx_push ch r)"
    using assms un n by (simp add: uart_rx_push_def Let_def uart_ok_def UART_RX_BUF_SIZE_def)
qed

lemma uart_pop:
  assumes "uart_ok r"
  shows "uart_rx_pop r =
          (case uart_items r of [] \<Rightarrow> (None, r)
           | x # xs \<Rightarrow> (Some x, r\<lparr> uart_rx_tail :=
                                     of_nat ((unat (uart_rx_tail r) + 1) mod UART_RX_BUF_SIZE) \<rparr>))"
    and "uart_items (snd (uart_rx_pop r)) = tl (uart_items r)"
    and "uart_rx_head (snd (uart_rx_pop r)) = uart_rx_head r"
    and "uart_ok (snd (uart_rx_pop r))"
proof -
  let ?n = "(unat (uart_rx_tail r) + 1) mod UART_RX_BUF_SIZE"
  have n: "?n < 256" by (simp add: UART_RX_BUF_SIZE_def)
  have un: "unat (of_nat ?n :: u16) = ?n" by (rule u16_next [OF n])
  have b: "unat (uart_rx_head r) < UART_RX_BUF_SIZE" "unat (uart_rx_tail r) < UART_RX_BUF_SIZE"
    using assms by (simp_all add: uart_ok_def)
  show "uart_rx_head (snd (uart_rx_pop r)) = uart_rx_head r"
    by (simp add: uart_rx_pop_def)
  show "uart_ok (snd (uart_rx_pop r))"
    using assms un n by (simp add: uart_rx_pop_def uart_ok_def UART_RX_BUF_SIZE_def)
  show "uart_rx_pop r =
          (case uart_items r of [] \<Rightarrow> (None, r)
           | x # xs \<Rightarrow> (Some x, r\<lparr> uart_rx_tail := of_nat ?n \<rparr>))"
  proof (cases "uart_rx_tail r = uart_rx_head r")
    case True
    then show ?thesis
      using b by (simp add: uart_rx_pop_def uart_items_def ring_items_empty)
  next
    case False
    then have "unat (uart_rx_head r) \<noteq> unat (uart_rx_tail r)" by (simp add: word_unat_eq_iff)
    from ring_items_pop [OF b this, of "uart_rx_buf r"] False
    show ?thesis by (simp add: uart_rx_pop_def uart_items_def)
  qed
  show "uart_items (snd (uart_rx_pop r)) = tl (uart_items r)"
  proof (cases "uart_rx_tail r = uart_rx_head r")
    case True
    then show ?thesis
      using b by (simp add: uart_rx_pop_def uart_items_def ring_items_empty)
  next
    case False
    then have "unat (uart_rx_head r) \<noteq> unat (uart_rx_tail r)" by (simp add: word_unat_eq_iff)
    from ring_items_pop [OF b this, of "uart_rx_buf r"] False
    show ?thesis by (simp add: uart_rx_pop_def uart_items_def un [simplified])
  qed
qed

lemma uart_run_ok: "uart_ok r \<Longrightarrow> uart_ok (uart_run ops r)"
proof (induction ops arbitrary: r)
  case Nil
  then show ?case by simp
next
  case (Cons op ops)
  then show ?case by (cases op) (simp_all add: uart_push(3) uart_pop(4))
qed

lemma uart_start_ok: "uart_ok uart_start"
  by (simp add: uart_ok_def uart_start_def UART_RX_BUF_SIZE_def)

lemma uart_drain_all:
  "uart_ok r \<Longrightarrow>
   uart_drain (uart_rx_head r) r fed
     = Some (fed @ uart_items r, r\<lparr> uart_rx_tail := uart_rx_head r \<rparr>)"
proof (induction "length (uart_items r)" arbitrary: r fed)
  case 0
  then have e: "uart_items r = []" by simp
  have "uart_rx_tail r = uart_rx_head r"
  proof (rule ccontr)
    assume ne: "uart_rx_tail r \<noteq> uart_rx_head r"
    then have "fst (uart_rx_pop r) \<noteq> None" by (simp add: uart_rx_pop_def)
    then show False using uart_pop(1) [OF "0.prems"] e by simp
  qed
  then show ?case
    using e by (subst uart_drain.simps) simp
next
  case (Suc n)
  then obtain x xs where c: "uart_items r = x # xs" by (cases "uart_items r") auto
  let ?r = "r\<lparr> uart_rx_tail := of_nat ((unat (uart_rx_tail r) + 1) mod UART_RX_BUF_SIZE) \<rparr>"
  have pop: "uart_rx_pop r = (Some x, ?r)"
    using uart_pop(1) [OF Suc.prems] c by simp
  then have ne: "uart_rx_tail r \<noteq> uart_rx_head r" and x: "uart_rx_buf r ! unat (uart_rx_tail r) = x"
    by (auto simp: uart_rx_pop_def split: if_splits)
  have ok': "uart_ok ?r" using uart_pop(4) [OF Suc.prems] pop by simp
  have it: "uart_items ?r = xs" using uart_pop(2) [OF Suc.prems] pop c by simp
  have "n = length (uart_items ?r)" using Suc.hyps(2) c it by simp
  from Suc.hyps(1) [OF this ok', of "fed @ [x]"]
  have "uart_drain (uart_rx_head r) ?r (fed @ [x])
          = Some (fed @ x # xs, r\<lparr> uart_rx_tail := uart_rx_head r \<rparr>)"
    using it by simp
  then show ?case
    using ne x c by (subst uart_drain.simps) simp
qed

text \<open>
  C8. For both rings, with the indices below the capacity: a push into a full ring
  changes nothing (the new item is dropped); any other push stores the item behind the
  queued ones (for the bus ring the item is the frame with the identifier, the length
  code and the 8 data bytes of the received message; for the serial ring it is the
  byte) and advances the producer index by one modulo the capacity, leaving the
  consumer index alone; a pop returns the oldest queued item and removes it, or nothing
  when the ring is empty, leaving the producer index alone; the drain loop of the main
  program returns and hands over the queued bytes oldest first; and after any sequence
  of pushes and pops, from the start or from any such state, both indices are below the
  capacity.
\<close>

theorem ring_buffers:
  assumes "can_ok c" and "uart_ok u"
  shows "(can_full c \<longrightarrow> can_rx_cb N N m c = c)
       \<and> (\<not> can_full c \<longrightarrow>
            unat (rx_head (can_rx_cb N N m c)) = (unat (rx_head c) + 1) mod CAN_RX_BUF_SIZE
          \<and> rx_tail (can_rx_cb N N m c) = rx_tail c
          \<and> can_items (can_rx_cb N N m c)
              = can_items c @ [\<lparr> can_id = msg_id m, data = take 8 (msg_data m),
                                 dlc = ucast (msg_dlc m) \<rparr>])
       \<and> fst (bsp_can_recv c) = (if can_items c = [] then None else Some (hd (can_items c)))
       \<and> can_items (snd (bsp_can_recv c)) = tl (can_items c)
       \<and> rx_head (snd (bsp_can_recv c)) = rx_head c
       \<and> can_ok (can_run N cops c)
       \<and> (uart_full u \<longrightarrow> uart_rx_push ch u = u)
       \<and> (\<not> uart_full u \<longrightarrow>
            unat (uart_rx_head (uart_rx_push ch u)) = (unat (uart_rx_head u) + 1) mod UART_RX_BUF_SIZE
          \<and> uart_rx_tail (uart_rx_push ch u) = uart_rx_tail u
          \<and> uart_items (uart_rx_push ch u) = uart_items u @ [ch])
       \<and> fst (uart_rx_pop u) = (if uart_items u = [] then None else Some (hd (uart_items u)))
       \<and> uart_items (snd (uart_rx_pop u)) = tl (uart_items u)
       \<and> uart_rx_head (snd (uart_rx_pop u)) = uart_rx_head u
       \<and> uart_drain (uart_rx_head u) u [] = Some (uart_items u, u\<lparr> uart_rx_tail := uart_rx_head u \<rparr>)
       \<and> uart_ok (uart_run uops u)
       \<and> can_ok (can_run N cops can_start) \<and> uart_ok (uart_run uops uart_start)"
proof -
  have cp: "fst (bsp_can_recv c) = (if can_items c = [] then None else Some (hd (can_items c)))"
    using can_pop(1) [OF assms(1)] by (cases "can_items c") simp_all
  have up: "fst (uart_rx_pop u) = (if uart_items u = [] then None else Some (hd (uart_items u)))"
    using uart_pop(1) [OF assms(2)] by (cases "uart_items u") simp_all
  show ?thesis
    using can_push(1,2) [OF assms(1), of N m] cp can_pop(2,3) [OF assms(1)]
      can_run_ok [OF assms(1), of N cops]
      uart_push(1,2) [OF assms(2), of ch] up uart_pop(2,3) [OF assms(2)]
      uart_drain_all [OF assms(2), of "[]"] uart_run_ok [OF assms(2), of uops]
      can_run_ok [OF can_start_ok, of N cops] uart_run_ok [OF uart_start_ok, of uops]
    by simp
qed

theorem ring_buffers_witness:
  "can_ok can_start \<and> uart_ok uart_start
   \<and> \<not> can_full can_start \<and> \<not> uart_full uart_start
   \<and> can_items (can_rx_cb 0x100000 0x100000 sample_msg can_start)
       = [\<lparr> can_id = 0x300, data = [1, 2, 3, 4, 5, 6, 7, 8], dlc = 8 \<rparr>]
   \<and> fst (bsp_can_recv (can_rx_cb 0x100000 0x100000 sample_msg can_start))
       = Some \<lparr> can_id = 0x300, data = [1, 2, 3, 4, 5, 6, 7, 8], dlc = 8 \<rparr>
   \<and> uart_items (uart_rx_push 0x55 uart_start) = [0x55]
   \<and> fst (uart_rx_pop (uart_rx_push 0x55 uart_start)) = Some 0x55
   \<and> fst (bsp_can_recv can_start) = None
   \<and> uart_drain (uart_rx_head uart_start) uart_start []
       = Some (uart_items uart_start, uart_start\<lparr> uart_rx_tail := uart_rx_head uart_start \<rparr>)
   \<and> can_ok (can_run 0x100000 [Push sample_msg, Pop, Pop] can_start)
   \<and> uart_ok (uart_run [Push 0x55, Pop, Pop] uart_start)"
proof -
  have nf: "\<not> can_full can_start" "\<not> uart_full uart_start"
    by (simp_all add: can_full_def can_start_def uart_full_def uart_start_def
        CAN_RX_BUF_SIZE_def UART_RX_BUF_SIZE_def)
  have e: "can_items can_start = []" "uart_items uart_start = []"
    by (simp_all add: can_items_def can_start_def uart_items_def uart_start_def ring_items_def
        CAN_RX_BUF_SIZE_def UART_RX_BUF_SIZE_def)
  note r = ring_buffers [OF can_start_ok uart_start_ok, of "0x100000" sample_msg
      "[Push sample_msg, Pop, Pop]" "0x55" "[Push 0x55, Pop, Pop]"]
  have ci: "can_items (can_rx_cb 0x100000 0x100000 sample_msg can_start)
       = [\<lparr> can_id = 0x300, data = [1, 2, 3, 4, 5, 6, 7, 8], dlc = 8 \<rparr>]"
    using r nf e by (simp add: sample_msg_def)
  have ui: "uart_items (uart_rx_push 0x55 uart_start) = [0x55]"
    using r nf e by simp
  have ok1: "can_ok (can_rx_cb 0x100000 0x100000 sample_msg can_start)"
    by (rule can_push(3) [OF can_start_ok])
  have ok2: "uart_ok (uart_rx_push 0x55 uart_start)"
    by (rule uart_push(3) [OF uart_start_ok])
  note q = ring_buffers [OF ok1 ok2, of "0x100000" sample_msg "[]" "0x55" "[]"]
  have cp: "fst (bsp_can_recv (can_rx_cb 0x100000 0x100000 sample_msg can_start))
       = Some \<lparr> can_id = 0x300, data = [1, 2, 3, 4, 5, 6, 7, 8], dlc = 8 \<rparr>"
    using q by (simp add: ci)
  have up: "fst (uart_rx_pop (uart_rx_push 0x55 uart_start)) = Some 0x55"
    using q by (simp add: ui)
  show ?thesis
    using r nf e can_start_ok uart_start_ok ci ui cp up by simp
qed

section \<open>The not-a-number sentinel\<close>

lemma float_fields_initial: "float_fields (ecu_data initial_parser) = replicate 38 NaN"
proof -
  have six: "replicate 6 NaN = [NaN, NaN, NaN, NaN, NaN, NaN]"
    by (simp add: numeral_eq_Suc)
  have "float_fields (ecu_data initial_parser) = replicate 32 NaN @ replicate 6 NaN"
    unfolding six
    by (simp add: float_fields_def fast_floats_def slow_floats_def initial_parser_def
        invent_ems_init_def six) (simp add: numeral_eq_Suc)
  then show ?thesis by (simp flip: replicate_add)
qed

lemma float_fields_error_count [simp]:
  "float_fields (e\<lparr> error_count := c \<rparr>) = float_fields e"
  by (simp add: float_fields_def fast_floats_def slow_floats_def)

lemma feed_switch_retry:
  assumes "snd (feed_switch b p)"
  shows "fst (feed_switch b p) = p\<lparr> rxstate := 0 \<rparr>"
proof -
  consider "rxstate p = 0" | "rxstate p = 1" | "rxstate p = 2" | "rxstate p = 3" | "rxstate p = 4"
    | "rxstate p = 5" | "rxstate p = 6" | "rxstate p \<notin> {0, 1, 2, 3, 4, 5, 6}"
    by auto
  then show ?thesis
  proof cases
    case 1 then show ?thesis using assms by (simp add: feed_switch_def)
  next
    case 2 then show ?thesis using assms by (simp add: feed_switch_def split: if_splits)
  next
    case 3 then show ?thesis using assms by (simp add: feed_switch_def split: if_splits)
  next
    case 4 then show ?thesis using assms by (simp add: feed_switch_def split: if_splits)
  next
    case 5 then show ?thesis using assms by (simp add: feed_switch_def split: if_splits)
  next
    case 6 then show ?thesis using assms by (simp add: feed_switch_def)
  next
    case 7 then show ?thesis using assms by (simp add: feed_switch_def)
  next
    case 8 then show ?thesis using assms by (simp add: feed_switch_def)
  qed
qed

lemma accumulate_floats:
  assumes "packet_count (ecu_data (accumulate b q)) = packet_count (ecu_data q)"
  shows "float_fields (ecu_data (accumulate b q)) = float_fields (ecu_data q)"
proof -
  define q1 where "q1 = (if unat (rxptr q) < MAX_RX_BUF
              then q\<lparr> rxbuf := (rxbuf q)[unat (rxptr q) := b] \<rparr> else q)"
  define q2 where "q2 = q1\<lparr> rxptr := rxptr q1 + 1 \<rparr>"
  define crc_rx where "crc_rx = (ucast (rxbuf q2 ! (unat (rxptr q2) - 2)) :: u16)
                        OR push_bit 8 (ucast (rxbuf q2 ! (unat (rxptr q2) - 1)) :: u16)"
  have e2: "ecu_data q2 = ecu_data q" by (simp add: q2_def q1_def)
  have acc: "accumulate b q =
     (if rxptr q2 > rxbuf q2 ! 0 then
         (if checksum (rxbuf q2) = crc_rx then parse_packet q2
          else q2\<lparr> ecu_data := (ecu_data q2)\<lparr> error_count := error_count (ecu_data q2) + 1 \<rparr> \<rparr>)
         \<lparr> rxstate := 0 \<rparr>
      else q2)"
    unfolding accumulate_def Let_def q2_def crc_rx_def q1_def by (rule refl)
  show ?thesis
  proof (cases "rxptr q2 > rxbuf q2 ! 0")
    case False
    then show ?thesis by (simp add: acc e2)
  next
    case True
    show ?thesis
    proof (cases "checksum (rxbuf q2) = crc_rx")
      case ok: True
      have "accumulate b q = (parse_packet q2)\<lparr> rxstate := 0 \<rparr>"
        using True ok by (simp add: acc)
      then have "packet_count (ecu_data (accumulate b q)) = packet_count (ecu_data q) + 1"
        by (simp add: parse_packet_count(1) e2)
      then show ?thesis using assms by simp
    next
      case bad: False
      have "accumulate b q =
         q2\<lparr> ecu_data := (ecu_data q2)\<lparr> error_count := error_count (ecu_data q2) + 1 \<rparr>,
             rxstate := 0 \<rparr>"
        using True bad by (simp add: acc)
      then show ?thesis by (simp add: e2)
    qed
  qed
qed

lemma feed_switch_floats:
  assumes "packet_count (ecu_data (fst (feed_switch b q))) = packet_count (ecu_data q)"
  shows "float_fields (ecu_data (fst (feed_switch b q))) = float_fields (ecu_data q)"
proof (cases "rxstate q = 6")
  case True
  then have "fst (feed_switch b q) = accumulate b q" by (simp add: feed_switch_def)
  then show ?thesis using assms accumulate_floats by simp
next
  case False
  then have "ecu_data (fst (feed_switch b q)) = ecu_data q"
    by (simp add: feed_switch_def)
  then show ?thesis by simp
qed

lemma feed_byte_no_frame:
  assumes "packet_count (ecu_data (invent_ems_feed_byte b p)) = packet_count (ecu_data p)"
  shows "float_fields (ecu_data (invent_ems_feed_byte b p)) = float_fields (ecu_data p)"
proof (cases "snd (feed_switch b p)")
  case True
  have "invent_ems_feed_byte b p = invent_ems_feed_byte b (p\<lparr> rxstate := 0 \<rparr>)"
    using True feed_switch_retry [OF True] by (subst feed_byte_unfold) simp
  also have "\<dots> = (if b = HEADER_0 then p\<lparr> rxstate := 1 \<rparr> else p\<lparr> rxstate := 0 \<rparr>)"
    using feed_byte_state0 [of "p\<lparr> rxstate := 0 \<rparr>" b] by simp
  finally show ?thesis by simp
next
  case False
  then have "invent_ems_feed_byte b p = fst (feed_switch b p)"
    by (subst feed_byte_unfold) simp
  then show ?thesis using feed_switch_floats [of b p] assms by simp
qed

lemma feed_bytes_no_frame:
  "frames_decoded bs p = 0 \<Longrightarrow> float_fields (ecu_data (feed_bytes bs p)) = float_fields (ecu_data p)"
proof (induction bs arbitrary: p)
  case Nil
  then show ?case by simp
next
  case (Cons b bs)
  then have a: "packet_count (ecu_data (invent_ems_feed_byte b p)) = packet_count (ecu_data p)"
    and r: "frames_decoded bs (invent_ems_feed_byte b p) = 0"
    by (simp_all split: if_splits)
  show ?case
    using Cons.IH [OF r] feed_byte_no_frame [OF a] by simp
qed

text \<open>
  C9 (as amended). After \<open>invent_ems_init\<close> and as long as no frame has been accepted,
  every \<open>float\<close> field of the telemetry record (there are 38) holds not-a-number, and
  not-a-number is none of the values a decoder writes to a \<open>float\<close> field: \<open>parse_fast\<close>,
  \<open>parse_slow\<close> and the bus-frame decoder write finite numbers only.
\<close>

theorem sentinel_floats:
  assumes "frames_decoded bs initial_parser = 0"
  shows "float_fields (ecu_data (feed_bytes bs initial_parser)) = replicate 38 NaN
       \<and> NaN \<notin> set (fast_floats (parse_fast buf e))
       \<and> NaN \<notin> set (slow_floats i (parse_slow i s e))
       \<and> NaN \<notin> set (can_floats ident
                        (ecu_data (snd (invent_ems_feed_can_frame ident payload len p))))"
proof -
  have a: "float_fields (ecu_data (feed_bytes bs initial_parser)) = replicate 38 NaN"
    using feed_bytes_no_frame [OF assms] float_fields_initial by simp
  have b: "NaN \<notin> set (fast_floats (parse_fast buf e))"
    by (simp add: fast_floats_def parse_fast_def Let_def)
  have c: "NaN \<notin> set (slow_floats i (parse_slow i s e))"
    by (simp add: slow_floats_def parse_slow_def image_iff)
  have d: "NaN \<notin> set (can_floats ident
                        (ecu_data (snd (invent_ems_feed_can_frame ident payload len p))))"
    by (simp add: can_floats_def invent_ems_feed_can_frame_def Let_def)
  show ?thesis using a b c d by simp
qed

theorem sentinel_floats_witness:
  "frames_decoded [0x55, 0x01] initial_parser = 0
   \<and> float_fields (ecu_data (feed_bytes [0x55, 0x01] initial_parser)) = replicate 38 NaN"
proof -
  have a: "invent_ems_feed_byte 0x55 initial_parser = initial_parser\<lparr> rxstate := 1 \<rparr>"
    using feed_byte_state0 [OF initial_rxstate, of "0x55"] by (simp add: HEADER_0_def)
  have sw: "feed_switch 0x01 (initial_parser\<lparr> rxstate := 1 \<rparr>)
             = (initial_parser\<lparr> rxstate := 0 \<rparr>, True)"
    by (simp add: feed_switch_def HEADER_1_def)
  have b: "invent_ems_feed_byte 0x01 (initial_parser\<lparr> rxstate := 1 \<rparr>)
           = initial_parser\<lparr> rxstate := 0 \<rparr>"
    by (subst feed_byte_unfold, simp add: sw) (simp add: feed_byte_state0 HEADER_0_def)
  have h: "frames_decoded [0x55, 0x01] initial_parser = 0"
    by (simp add: a b)
  show ?thesis
    using sentinel_floats [OF h] h by blast
qed

text \<open>
  C9 as stated fails for the integer fields: they have no sentinel. \<open>runlevel\<close> is 0
  after \<open>invent_ems_init\<close>, and 0 is what \<open>parse_fast\<close> decodes from a zero byte.
\<close>

theorem sentinel_integer_counterexample:
  "runlevel (ecu_data initial_parser) = 0
   \<and> runlevel (parse_fast (replicate 64 0) (ecu_data initial_parser)) = 0"
  by (simp add: initial_parser_def invent_ems_init_def zero_data_def parse_fast_def Let_def)

section \<open>The emitted frame\<close>

lemma length_fast_part: "length (fast_part eng) = 24"
  by (simp add: fast_part_def le16_def)

lemma length_slow_part: "length (slow_part eng idx) = 11"
  by (simp add: slow_part_def fillSlow0_def fillSlow1_def fillSlow2_def fillSlow3_def
      fillSlow4_def fillSlow5_def fillSlow6_def fillSlow7_def fillSlow8_def fillSlow9_def
      le16_def)

lemma fast_part_length_byte: "fast_part eng ! 0 = 37"
  by (simp add: fast_part_def sizeof_TInfoPacket_def)

lemma length_packet: "length (packet eng idx) = 36"
  by (simp add: packet_def length_fast_part length_slow_part)

lemma packet_length_byte: "packet eng idx ! 0 = 37"
  by (simp add: packet_def nth_append length_fast_part fast_part_length_byte)

lemma le16_bytes:
  "ucast (crc AND 0xFF :: u16) = (ucast crc :: u8)"
  "(ucast (drop_bit 8 crc AND 0xFF :: u16) :: u8) = ucast (drop_bit 8 crc)"
proof -
  have m: "(0xFF :: u16) = mask 8" by (simp add: mask_eq_exp_minus_1)
  show "ucast (crc AND 0xFF :: u16) = (ucast crc :: u8)"
    unfolding m by (rule bit_word_eqI) (auto simp: bit_simps)
  show "(ucast (drop_bit 8 crc AND 0xFF :: u16) :: u8) = ucast (drop_bit 8 crc)"
    unfolding m by (rule bit_word_eqI) (auto simp: bit_simps)
qed

lemma le16_join:
  "(ucast (ucast w :: u8) :: u16) OR push_bit 8 (ucast (ucast (drop_bit 8 w :: u16) :: u8)) = w"
  by (rule bit_word_eqI) (auto simp: bit_simps dest: bit_imp_le_length)

lemma buildAndSend_frame:
  "buildAndSend eng idx =
     Some (HEADER @ packet eng idx @ le16 (spec_checksum (packet eng idx)), next_index idx)"
proof -
  let ?pk = "packet eng idx"
  let ?tx = "?pk @ [0, 0]"
  have z: "?tx ! 0 = 37" using packet_length_byte [of eng idx] length_packet [of eng idx]
    by (simp add: nth_append)
  have "calcChecksum ?tx = Some (spec_checksum (take (unat (?tx ! 0) - 1) ?tx))"
    by (rule calcChecksum_is_spec) (simp_all add: z length_packet)
  then have cs: "calcChecksum ?tx = Some (spec_checksum ?pk)"
    by (simp add: z length_packet)
  have upd: "?tx[36 := a, 37 := b] = ?pk @ [a, b]" for a b
    using length_packet [of eng idx] by (simp add: list_update_append)
  have tx: "fast_part eng @ [idx] @ slow_part eng idx @ [0, 0] = ?tx"
    by (simp add: packet_def)
  show ?thesis
    unfolding buildAndSend_def tx Let_def
    by (simp add: cs sizeof_TInfoPacket_def upd le16_bytes le16_def next_index_def)
qed

lemma HEADER_sync: "HEADER = sync_header"
  by (simp add: HEADER_def sync_header_def HEADER_0_def HEADER_1_def HEADER_2_def HEADER_3_def
      INVENT_EMS_PROTOCOL_VER_def)

lemma emitted_frame_valid:
  "valid_frame (HEADER @ packet eng idx @ le16 (spec_checksum (packet eng idx)))"
proof -
  let ?pk = "packet eng idx"
  let ?f = "HEADER @ ?pk @ le16 (spec_checksum ?pk)"
  have h5: "length HEADER = 5" by (simp add: HEADER_def)
  have f5: "?f ! 5 = 37" using packet_length_byte [of eng idx] length_packet [of eng idx] h5
    by (simp add: nth_append)
  have rd: "read_u16 ?f 41 = spec_checksum ?pk"
    using length_packet [of eng idx] h5
    by (simp add: read_u16_def nth_append le16_def le16_join)
  have tk: "take 36 (drop 5 ?f) = ?pk"
    using length_packet [of eng idx] h5 by simp
  show ?thesis
    unfolding valid_frame_def f5
    using h5 length_packet [of eng idx] rd tk
    by (simp add: HEADER_sync [symmetric] MIN_PACKET_LEN_def MAX_PACKET_LEN_def le16_def)
qed

lemma frame_end_state: "rxstate (frame_end q) = 0"
  by (simp add: frame_end_def)

lemma frame_end_count:
  "packet_count (ecu_data (frame_end q)) =
     (if checksum (rxbuf q) = read_u16 (rxbuf q) (unat (rxbuf q ! 0) - 1)
      then packet_count (ecu_data q) + 1 else packet_count (ecu_data q))"
  by (simp add: frame_end_def parse_packet_count(1))

lemma feed_body_any:
  assumes ok: "parser_ok p" and st: "rxstate p = 5"
    and L4: "4 \<le> unat L" and L48: "unat L \<le> 48" and len: "length bs = unat L"
  shows "k < unat L \<Longrightarrow> rxstate (feed_bytes (L # take k bs) p) = 6"
    and "rxstate (feed_bytes (L # bs) p) = 0"
    and "frames_decoded (L # bs) p =
          (if read_u16 bs (unat L - 2) = spec_checksum (L # take (unat L - 2) bs) then 1 else 0)"
proof -
  define mid where "mid = butlast bs"
  define hi where "hi = last bs"
  have ne: "bs \<noteq> []" using len L4 by auto
  have bs: "bs = mid @ [hi]" using ne by (simp add: mid_def hi_def)
  have lm: "length mid = unat L - 1" using len by (simp add: mid_def)
  let ?q = "p\<lparr> rxstate := 6, rxbuf := stored 0 (L # mid @ [hi]) (rxbuf p), rxptr := L + 1 \<rparr>"
  note fb = feed_body [OF ok st L4 L48 lm]
  show "rxstate (feed_bytes (L # bs) p) = 0"
    using fb(3) by (simp add: bs frame_end_state)
  show "rxstate (feed_bytes (L # take k bs) p) = 6" if "k < unat L"
  proof -
    have tk: "take k bs = take k mid" using that lm by (simp add: bs)
    have wL: "MIN_PACKET_LEN \<le> L" "L \<le> MAX_PACKET_LEN"
      using L4 L48 by (simp_all add: MIN_PACKET_LEN_def MAX_PACKET_LEN_def word_le_nat_alt)
    let ?p2 = "p\<lparr> rxbuf := (rxbuf p)[0 := L], rxptr := 1, rxstate := 6 \<rparr>"
    have s2: "invent_ems_feed_byte L p = ?p2" by (rule feed_length [OF st wL])
    have ok2: "parser_ok ?p2" using parser_ok_feed_byte [OF ok, of L] s2 by simp
    have l64: "length (rxbuf p) = 64" using ok by (simp add: parser_ok_def MAX_RX_BUF_def)
    have pre: "unat (rxptr ?p2) + length (take k mid) \<le> unat (rxbuf ?p2 ! 0)"
      using that lm l64 by simp
    from feed_payload [OF ok2 _ pre]
    have "rxstate (feed_bytes (take k mid) ?p2) = 6" by simp
    then show ?thesis by (simp add: tk s2)
  qed
  have l64: "length (rxbuf p) = 64" using ok by (simp add: parser_ok_def MAX_RX_BUF_def)
  let ?buf = "stored 0 (L # mid @ [hi]) (rxbuf p)"
  have z: "?buf ! 0 = L" by (simp add: stored_def)
  have lb: "length ?buf = 64" using l64 lm L4 L48 by (simp add: stored_def)
  have cs: "checksum ?buf = spec_checksum (take (unat L - 1) ?buf)"
    using checksum_is_spec [of ?buf] z lb L4 L48 by simp
  have "take (unat L - 1) (L # bs) = L # take (unat L - 2) bs"
    using L4 by (simp add: take_Cons' numeral_2_eq_2)
  then have tk: "take (unat L - 1) ?buf = L # take (unat L - 2) bs"
    using lm L4 stored_prefix [of "unat L - 1" "L # mid @ [hi]" "rxbuf p"] by (simp add: bs)
  have "read_u16 ?buf (unat L - 1) = read_u16 (L # mid @ [hi]) (unat L - 1)"
    using lm L4 by (intro stored_read_u16) simp
  also have "\<dots> = read_u16 bs (unat L - 2)"
  proof -
    have "Suc (unat L - Suc (Suc 0)) = unat L - Suc 0" using L4 by simp
    then show ?thesis
      using L4 by (simp add: read_u16_def bs nth_Cons' numeral_2_eq_2)
  qed
  finally have rd: "read_u16 ?buf (unat L - 1) = read_u16 bs (unat L - 2)" .
  define p3 where "p3 = feed_bytes (L # mid) p"
  have e3: "ecu_data p3 = ecu_data p" unfolding p3_def by (subst fb(1)) simp
  have last: "invent_ems_feed_byte hi p3 = frame_end ?q"
    unfolding p3_def using fb(3) feed_bytes_append [of "L # mid" "[hi]" p] by simp
  have "frames_decoded [hi] p3 =
          (if read_u16 bs (unat L - 2) = spec_checksum (L # take (unat L - 2) bs) then 1 else 0)"
    using z by (auto simp add: last frame_end_count e3 cs tk rd simp del: One_nat_def)
  then show "frames_decoded (L # bs) p =
          (if read_u16 bs (unat L - 2) = spec_checksum (L # take (unat L - 2) bs) then 1 else 0)"
    using frames_decoded_append [of "L # mid" "[hi]" p] fb(2) by (simp add: bs p3_def)
qed

text \<open>
  C6 (as amended). A complete wire frame with length byte \<open>L\<close> carries \<open>L - 2\<close> payload
  bytes between the length byte and the two checksum bytes, which sit at the stream
  offsets \<open>6 + P\<close> and \<open>7 + P\<close> for that payload size \<open>P\<close>. The emulator emits 43 bytes
  with the length byte 37, 35 payload bytes and the checksum of the length byte and the
  payload; the decoder, once it has taken a length byte \<open>L\<close>, stays in the payload
  state for the next \<open>L - 1\<close> bytes and closes the frame at the \<open>L\<close>-th, reading the
  last two of them as the checksum of the length byte and the \<open>L - 2\<close> bytes before.
\<close>

theorem frame_layout:
  assumes "parser_ok p" and "rxstate p = 5"
    and "MIN_PACKET_LEN \<le> L" and "L \<le> MAX_PACKET_LEN" and "length bs = unat L"
  shows "(\<exists>f n. buildAndSend eng idx = Some (f, n) \<and> valid_frame f \<and> f ! 5 = 37
            \<and> length f = 43 \<and> payload_size f = unat (f ! 5) - 2
            \<and> read_u16 f (6 + payload_size f)
                 = spec_checksum (take (1 + payload_size f) (drop 5 f)))
       \<and> (\<forall>k < unat L. rxstate (feed_bytes (L # take k bs) p) = 6)
       \<and> rxstate (feed_bytes (L # bs) p) = 0
       \<and> frames_decoded (L # bs) p =
           (if read_u16 bs (unat L - 2) = spec_checksum (L # take (unat L - 2) bs)
            then 1 else 0)"
proof -
  have L4: "4 \<le> unat L" and L48: "unat L \<le> 48"
    using assms(3,4) by (simp_all add: MIN_PACKET_LEN_def MAX_PACKET_LEN_def word_le_nat_alt)
  let ?f = "HEADER @ packet eng idx @ le16 (spec_checksum (packet eng idx))"
  have vf: "valid_frame ?f" by (rule emitted_frame_valid)
  have h5: "length HEADER = 5" by (simp add: HEADER_def)
  have lf: "length ?f = 43" by (simp add: h5 length_packet le16_def)
  have f5: "?f ! 5 = 37"
    using packet_length_byte [of eng idx] length_packet [of eng idx] h5 by (simp add: nth_append)
  have ps: "payload_size ?f = 35" unfolding payload_size_def lf by simp
  have rd: "read_u16 ?f 41 = spec_checksum (take 36 (drop 5 ?f))"
    using vf by (simp add: valid_frame_def f5)
  have emu: "\<exists>f n. buildAndSend eng idx = Some (f, n) \<and> valid_frame f \<and> f ! 5 = 37
            \<and> length f = 43 \<and> payload_size f = unat (f ! 5) - 2
            \<and> read_u16 f (6 + payload_size f)
                 = spec_checksum (take (1 + payload_size f) (drop 5 f))"
    using buildAndSend_frame [of eng idx] vf lf f5 ps rd by simp
  show ?thesis
    using emu feed_body_any [OF assms(1,2) L4 L48 assms(5)] by simp
qed

theorem frame_layout_witness:
  "parser_ok (initial_parser\<lparr> rxstate := 5 \<rparr>) \<and> rxstate (initial_parser\<lparr> rxstate := 5 \<rparr>) = 5
   \<and> MIN_PACKET_LEN \<le> 4 \<and> 4 \<le> MAX_PACKET_LEN \<and> length [1, 2, 0x98, 0x60 :: u8] = unat (4 :: u8)
   \<and> (\<exists>f n. buildAndSend initEngineState 0 = Some (f, n) \<and> valid_frame f \<and> f ! 5 = 37
            \<and> length f = 43 \<and> payload_size f = unat (f ! 5) - 2
            \<and> read_u16 f (6 + payload_size f)
                 = spec_checksum (take (1 + payload_size f) (drop 5 f)))
   \<and> rxstate (feed_bytes (4 # [1, 2, 0x98, 0x60]) (initial_parser\<lparr> rxstate := 5 \<rparr>)) = 0
   \<and> frames_decoded (4 # [1, 2, 0x98, 0x60]) (initial_parser\<lparr> rxstate := 5 \<rparr>) = 1"
proof -
  let ?p = "initial_parser\<lparr> rxstate := 5 \<rparr>"
  have h1: "parser_ok ?p" using parser_ok_initial by (simp add: parser_ok_def)
  have h2: "rxstate ?p = 5" by simp
  have h3: "MIN_PACKET_LEN \<le> 4" "4 \<le> MAX_PACKET_LEN"
    by (simp_all add: MIN_PACKET_LEN_def MAX_PACKET_LEN_def)
  have h5: "length [1, 2, 0x98, 0x60 :: u8] = unat (4 :: u8)" by simp
  note r = frame_layout [OF h1 h2 h3 h5, of initEngineState 0]
  have c: "read_u16 [1, 2, 0x98, 0x60] (unat (4 :: u8) - 2) = spec_checksum (4 # take (unat (4 :: u8) - 2) [1, 2, 0x98, 0x60])"
    by (simp add: read_u16_def sample_checksum)
  have d: "frames_decoded (4 # [1, 2, 0x98, 0x60]) ?p = 1"
    using r c by simp
  show ?thesis
    using h1 h2 h3 h5 r d by blast
qed

text \<open>
  C6 as stated fails: the frame the emulator emits has the length byte 37 and 35 bytes
  between it and the checksum, not 36.
\<close>

theorem payload_size_counterexample:
  "payload_size (fst (the (buildAndSend initEngineState 0))) = 35
   \<and> unat (fst (the (buildAndSend initEngineState 0)) ! 5) - 1 = 36"
proof -
  let ?f = "HEADER @ packet initEngineState 0 @ le16 (spec_checksum (packet initEngineState 0))"
  have h5: "length HEADER = 5" by (simp add: HEADER_def)
  have lf: "length ?f = 43" by (simp add: h5 length_packet le16_def)
  have f5: "?f ! 5 = 37"
    using packet_length_byte [of initEngineState 0] length_packet [of initEngineState 0] h5
    by (simp add: nth_append)
  show ?thesis
    unfolding buildAndSend_frame option.sel fst_conv payload_size_def lf f5
    by simp
qed

section \<open>Encoding, then decoding\<close>

lemma decoded_frame:
  assumes ok: "parser_ok p" and st: "rxstate p \<le> 4"
  obtains rest1 rest2 where
    "ecu_data (feed_bytes (HEADER @ packet eng idx @ le16 (spec_checksum (packet eng idx))) p)
       = (if idx < SLOW_PACKET_COUNT
          then parse_slow idx (slow_part eng idx @ rest2)
                 (parse_fast (fast_part eng @ rest1) (ecu_data p))
          else parse_fast (fast_part eng @ rest1) (ecu_data p))
         \<lparr> connected := True, packet_count := packet_count (ecu_data p) + 1 \<rparr>"
proof -
  let ?pk = "packet eng idx"
  let ?f = "HEADER @ ?pk @ le16 (spec_checksum ?pk)"
  let ?tl = "le16 (spec_checksum ?pk) @ drop 38 (rxbuf p)"
  have h5: "length HEADER = 5" by (simp add: HEADER_def)
  have d5: "drop 5 ?f = ?pk @ le16 (spec_checksum ?pk)" using h5 by simp
  define B where "B = fast_part eng @ ([idx] @ slow_part eng idx @ ?tl)"
  have "stored 0 (?pk @ le16 (spec_checksum ?pk)) (rxbuf p) = ?pk @ ?tl"
    by (simp add: stored_def length_packet le16_def)
  then have buf: "stored 0 (drop 5 ?f) (rxbuf p) = B"
    unfolding d5 B_def by (simp add: packet_def)
  have i24: "B ! 24 = idx"
    by (simp add: B_def nth_append length_fast_part)
  have d25: "drop SLOW_PACKET_OFFSET B = slow_part eng idx @ ?tl"
    by (simp add: B_def SLOW_PACKET_OFFSET_def length_fast_part)
  have "ecu_data (feed_bytes ?f p)
       = (if idx < SLOW_PACKET_COUNT
          then parse_slow idx (slow_part eng idx @ ?tl) (parse_fast B (ecu_data p))
          else parse_fast B (ecu_data p))
         \<lparr> connected := True, packet_count := packet_count (ecu_data p) + 1 \<rparr>"
    unfolding feed_valid_frame(1) [OF ok st emitted_frame_valid] buf
    by (simp add: parse_packet_def Let_def i24 d25)
  then have "ecu_data (feed_bytes ?f p)
       = (if idx < SLOW_PACKET_COUNT
          then parse_slow idx (slow_part eng idx @ ?tl)
                 (parse_fast (fast_part eng @ ([idx] @ slow_part eng idx @ ?tl)) (ecu_data p))
          else parse_fast (fast_part eng @ ([idx] @ slow_part eng idx @ ?tl)) (ecu_data p))
         \<lparr> connected := True, packet_count := packet_count (ecu_data p) + 1 \<rparr>"
    unfolding B_def .
  then show ?thesis by (rule that)
qed

lemma ign_angle_parse_slow: "ign_angle (parse_slow i s e) = ign_angle e"
  by (simp add: parse_slow_def)

lemma ign_angle_parse_fast:
  "ign_angle (parse_fast (fast_part eng @ rest) e)
     = Fin (f32_mul (f_i16 (to_i16 (f32_div (eng_angleDeg eng) 0.25))) 0.25)"
  by (simp add: parse_fast_def fast_part_def le16_def read_i16_def le16_join Let_def)

lemma decoded_ign_angle:
  assumes "parser_ok p" and "rxstate p \<le> 4" and "idx < 10"
  shows "ign_angle (ecu_data (feed_bytes (fst (the (buildAndSend eng idx))) p))
           = Fin (f32_mul (f_i16 (to_i16 (f32_div (eng_angleDeg eng) 0.25))) 0.25)"
proof -
  let ?f = "HEADER @ packet eng idx @ le16 (spec_checksum (packet eng idx))"
  have lt: "idx < SLOW_PACKET_COUNT" using assms(3) by (simp add: SLOW_PACKET_COUNT_def)
  obtain rest1 rest2 where e0: "ecu_data (feed_bytes ?f p)
       = (if idx < SLOW_PACKET_COUNT
          then parse_slow idx (slow_part eng idx @ rest2)
                 (parse_fast (fast_part eng @ rest1) (ecu_data p))
          else parse_fast (fast_part eng @ rest1) (ecu_data p))
         \<lparr> connected := True, packet_count := packet_count (ecu_data p) + 1 \<rparr>"
    by (rule decoded_frame [OF assms(1,2)])
  have e: "ecu_data (feed_bytes ?f p)
       = (parse_slow idx (slow_part eng idx @ rest2)
            (parse_fast (fast_part eng @ rest1) (ecu_data p)))
         \<lparr> connected := True, packet_count := packet_count (ecu_data p) + 1 \<rparr>"
    using e0 lt by simp
  show ?thesis
    unfolding buildAndSend_frame option.sel fst_conv e
    by (simp add: ign_angle_parse_slow ign_angle_parse_fast)
qed

text \<open>The frame of the idle state, byte for byte, the checksum \<open>D8 65\<close> included.\<close>

lemma idle_frame:
  "buildAndSend initEngineState 0 = Some
    ([0x55, 0x00, 0xAA, 0x00, 0x54,
      37, 1, 2, 40, 0, 24, 244, 45, 113, 2, 10, 13, 13, 18, 128, 0, 0, 0, 0, 0, 0, 0, 0, 0,
      0, 254, 128, 3, 255, 44, 1, 35, 141, 0, 12, 131, 0xD8, 0x65], 1)"
proof -
  have fp: "fast_part initEngineState =
    [37, 1, 2, 40, 0, 24, 244, 45, 113, 2, 10, 13, 13, 18, 128, 0, 0, 0, 0, 0, 0, 0, 0, 0]"
    by (simp add: fast_part_def initEngineState_def zero_engine_def f32_eval clampU8_def
        to_i16_def to_u16_def c_trunc_def rpmToPeriod_def le16_def sizeof_TInfoPacket_def)
  have sp: "fillSlow0 initEngineState = [254, 128, 3, 255, 44, 1, 35, 141, 0, 12, 131]"
    by (simp add: fillSlow0_def initEngineState_def zero_engine_def f32_eval clampU8_def
        c_trunc_def le16_def)
  have pk: "packet initEngineState 0 =
    [37, 1, 2, 40, 0, 24, 244, 45, 113, 2, 10, 13, 13, 18, 128, 0, 0, 0, 0, 0, 0, 0, 0, 0,
     0, 254, 128, 3, 255, 44, 1, 35, 141, 0, 12, 131]"
    by (simp add: packet_def fp sp slow_part_def)
  have cs: "spec_checksum
    [37, 1, 2, 40, 0, 24, 244, 45, 113, 2, 10, 13, 13, 18, 128, 0, 0, 0, 0, 0, 0, 0, 0, 0,
     0, 254, 128, 3, 255, 44, 1, 35, 141, 0, 12, 131] = 0x65D8"
    by (simp add: spec_checksum_def spec_crc_byte_def)
  show ?thesis
    by (simp add: buildAndSend_frame pk cs HEADER_def le16_def next_index_def
        TOTAL_SLOW_PACKETS_def word_le_nat_alt)
qed

text \<open>
  C2, evaluated at an engine state in range, the idle state with an ignition angle of
  12.1875 degrees: \<open>buildAndSend\<close> writes \<open>(int16_t)(12.1875f / 0.25f) = (int16_t)48.75f\<close>,
  which is 48 as the cast drops the fraction (the bytes \<open>30 00\<close> of the frame below), and
  the decoder reads 12.0, off by 0.1875, more than half of the scale 0.25. Every operation of this trace is exact in single
  precision. The fields that go through \<open>clampU8\<close> are rounded with \<open>+ 0.5f\<close> before the
  cast; the six fields written with a bare cast (\<open>Uoz\<close>, \<open>InjTime\<close> and the four trip
  values) are not.
\<close>

theorem truncated_ignition_angle:
  "eng_angleDeg angle_state = 12.1875
   \<and> buildAndSend angle_state 0 = Some
        ([0x55, 0x00, 0xAA, 0x00, 0x54,
          37, 1, 2, 48, 0, 24, 244, 45, 113, 2, 10, 13, 13, 18, 128, 0, 0, 0, 0, 0, 0, 0, 0, 0,
          0, 254, 128, 3, 255, 44, 1, 35, 141, 0, 12, 131, 0x96, 0x50], 1)
   \<and> ign_angle (ecu_data (feed_bytes (fst (the (buildAndSend angle_state 0))) initial_parser))
       = Fin 12
   \<and> \<bar>12 - eng_angleDeg angle_state\<bar> > 0.5 * 0.25"
proof -
  have h2: "rxstate initial_parser \<le> 4" by (simp add: initial_rxstate)
  have h3: "(0 :: u8) < 10" by simp
  have g: "eng_angleDeg angle_state = 12.1875"
    by (simp add: angle_state_def)
  have t: "to_i16 (f32_div 12.1875 0.25) = 48"
    by (simp add: f32_eval to_i16_def c_trunc_def)
  have fp: "fast_part angle_state =
    [37, 1, 2, 48, 0, 24, 244, 45, 113, 2, 10, 13, 13, 18, 128, 0, 0, 0, 0, 0, 0, 0, 0, 0]"
    by (simp add: fast_part_def angle_state_def initEngineState_def zero_engine_def f32_eval
        clampU8_def to_i16_def to_u16_def c_trunc_def rpmToPeriod_def le16_def
        sizeof_TInfoPacket_def)
  have sp: "fillSlow0 angle_state = [254, 128, 3, 255, 44, 1, 35, 141, 0, 12, 131]"
    by (simp add: fillSlow0_def angle_state_def initEngineState_def zero_engine_def f32_eval
        clampU8_def c_trunc_def le16_def)
  have pk: "packet angle_state 0 =
    [37, 1, 2, 48, 0, 24, 244, 45, 113, 2, 10, 13, 13, 18, 128, 0, 0, 0, 0, 0, 0, 0, 0, 0,
     0, 254, 128, 3, 255, 44, 1, 35, 141, 0, 12, 131]"
    by (simp add: packet_def fp sp slow_part_def)
  have cs: "spec_checksum
    [37, 1, 2, 48, 0, 24, 244, 45, 113, 2, 10, 13, 13, 18, 128, 0, 0, 0, 0, 0, 0, 0, 0, 0,
     0, 254, 128, 3, 255, 44, 1, 35, 141, 0, 12, 131] = 0x5096"
    by (simp add: spec_checksum_def spec_crc_byte_def)
  have w: "buildAndSend angle_state 0 = Some
        ([0x55, 0x00, 0xAA, 0x00, 0x54,
          37, 1, 2, 48, 0, 24, 244, 45, 113, 2, 10, 13, 13, 18, 128, 0, 0, 0, 0, 0, 0, 0, 0, 0,
          0, 254, 128, 3, 255, 44, 1, 35, 141, 0, 12, 131, 0x96, 0x50], 1)"
    by (simp add: buildAndSend_frame pk cs HEADER_def le16_def next_index_def
        TOTAL_SLOW_PACKETS_def word_le_nat_alt)
  have a: "ign_angle (ecu_data (feed_bytes (fst (the (buildAndSend angle_state 0)))
             initial_parser)) = Fin 12"
    unfolding decoded_ign_angle [OF parser_ok_initial h2 h3] g t
    by (simp add: f32_eval f_i16_def)
  have b: "\<bar>12 - eng_angleDeg angle_state\<bar> > 0.5 * 0.25"
    by (simp add: g)
  show ?thesis using g w a b by blast
qed

end
